theory Spec2Isabelle
  imports Main "HOL-Library.Char_ord" "HOL-Library.List_Lexorder" "HOL-Library.AList"
begin

section \<open>Outbound Olm encryption: the data model\<close>

text \<open>
  The development embeds the class \<open>Encryption\<close> (with \<open>EncryptionTarget\<close> and
  \<open>EncryptedMessage\<close>) of the Olm encryption module. JavaScript exceptions and
  rejected promises are values \<open>Inl err\<close> of a sum type; \<open>null\<close> and \<open>undefined\<close>
  are \<open>None\<close>. JavaScript objects used as dictionaries are association lists in the
  order of \<open>Object.entries\<close>, with ordinary (non-prototype) property names.
\<close>

datatype error =
    ReferenceError
  | TypeError
  | StorageError string
  | NetworkError string
  | OlmError string

datatype json =
    JStr string
  | JNum int
  | JObj "(string \<times> json) list"

record device =
  userId :: string
  deviceId :: string
  curve25519Key :: string
  ed25519Key :: string

text \<open>
  A native Olm session object: \<open>handle\<close> identifies the allocation that \<open>free\<close>
  releases, \<open>session_id\<close> is what \<open>session.session_id()\<close> returns.
\<close>

record olm_session =
  handle :: nat
  session_id :: string

text \<open>The class \<open>EncryptionTarget\<close>, lines 233 to 255.\<close>

record encryption_target =
  device :: device
  oneTimeKey :: "string option"
  sessionId :: "string option"
  session :: "olm_session option"

definition fromOTK :: "device \<Rightarrow> string \<Rightarrow> encryption_target" where
  "fromOTK d k = \<lparr>device = d, oneTimeKey = Some k, sessionId = None, session = None\<rparr>"

definition fromSessionId :: "device \<Rightarrow> string option \<Rightarrow> encryption_target" where
  "fromSessionId d sid = \<lparr>device = d, oneTimeKey = None, sessionId = sid, session = None\<rparr>"

text \<open>The stored session entry, as \<open>_loadSessions\<close> reads it and \<open>createSessionEntry\<close> builds it.\<close>

record session_entry =
  se_session :: string
  se_sessionId :: string
  se_senderKey :: string
  se_lastUsed :: int

text \<open>One device section of a key-claim response: \<open>{key, signatures}\<close>.\<close>

record key_section =
  key :: string
  signatures :: json

type_synonym device_section = "(string \<times> key_section) list"
type_synonym user_key_map = "(string \<times> (string \<times> device_section) list) list"

record claim_response =
  one_time_keys :: "user_key_map option"

text \<open>The plaintext envelope, the Olm message and the encrypted content.\<close>

record plain_text_message =
  keys :: "(string \<times> string) list"
  recipient_keys :: "(string \<times> string) list"
  recipient :: string
  sender :: string
  content :: json
  type :: string

record olm_message =
  msg_type :: nat
  body :: string

record encrypted_content =
  algorithm :: string
  sender_key :: string
  ciphertext :: "(string \<times> olm_message) list"

text \<open>The class \<open>EncryptedMessage\<close>, lines 257 to 262.\<close>

record encrypted_message =
  em_content :: encrypted_content
  em_device :: device

text \<open>
  The constructor's fields (lines 34 to 42) and the behaviour of the collaborators the
  class calls: the account, the Olm library, the signature check of \<open>common.js\<close> and
  the session store. A store or library call that throws or rejects returns an error.
  The last two fields are the schedule of the reads of \<open>_loadSessions\<close>: the order in
  which the reads of a batch of the given size settle, and the number of reads that
  still settle between the first rejection and the \<open>catch\<close> that handles it.
\<close>

record env =
  identityKeys_curve25519 :: string
  identityKeys_ed25519 :: string
  ownUserId :: string
  now :: int
  pickleKey :: string
  getSessionIds :: "string \<Rightarrow> error + string list option"
  getSession :: "string \<Rightarrow> string option \<Rightarrow> error + session_entry option"
  setSession :: "session_entry \<Rightarrow> error option"
  complete :: "session_entry list \<Rightarrow> error option"
  verifyEd25519Signature :: "string \<Rightarrow> string \<Rightarrow> string \<Rightarrow> key_section \<Rightarrow> bool"
  createOutboundOlmSession :: "string \<Rightarrow> string option \<Rightarrow> error + string"
  unpickle :: "string \<Rightarrow> string \<Rightarrow> error + string"
  pickle :: "string \<Rightarrow> olm_session \<Rightarrow> string"
  session_encrypt :: "olm_session \<Rightarrow> plain_text_message \<Rightarrow> olm_message"
  load_order :: "nat \<Rightarrow> nat list"
  catch_delay :: nat

type_synonym hs_api = "json \<Rightarrow> error + claim_response option"

text \<open>
  What a call leaves behind: the native sessions allocated and freed and the key-claim
  requests issued, in order, and the durable content of the session store.
\<close>

datatype event =
    Allocated nat
  | Freed nat
  | ClaimKeys json
  | TxnAbort
  | TxnComplete

record world =
  next_handle :: nat
  trace :: "event list"
  durable :: "((string \<times> string) \<times> session_entry) list"

definition emit :: "event \<Rightarrow> world \<Rightarrow> world" where
  "emit e w = w\<lparr>trace := trace w @ [e]\<rparr>"

section \<open>The functions\<close>

text \<open>
  \<open>findFirstSessionId\<close>, lines 21 to 29. The accumulator starts as \<open>null\<close>; the test
  \<open>!first\<close> holds for \<open>null\<close> and for the empty string.
\<close>

definition falsy :: "string option \<Rightarrow> bool" where
  "falsy v = (case v of None \<Rightarrow> True | Some s \<Rightarrow> s = [])"

definition reducer :: "string option \<Rightarrow> string \<Rightarrow> string option" where
  "reducer first sid =
     (if falsy first \<or> (case first of None \<Rightarrow> False | Some f \<Rightarrow> sid < f)
      then Some sid else first)"

definition findFirstSessionId :: "string list \<Rightarrow> string option" where
  "findFirstSessionId sessionIds = foldl reducer None sessionIds"

definition OTK_ALGORITHM :: string where
  "OTK_ALGORITHM = ''signed_curve25519''"

text \<open>
  Modelled from the spec: the constant \<open>OLM_ALGORITHM\<close> of \<open>common.js\<close>, which the
  wire format gives as \<open>m.olm.v1.curve25519-aes-sha2\<close>.
\<close>

definition OLM_ALGORITHM :: string where
  "OLM_ALGORITHM = ''m.olm.v1.curve25519-aes-sha2''"

text \<open>
  \<open>Promise.all\<close> over settled results, and \<open>Array.map\<close> with a callback that may
  throw: the first error, or all the values.
\<close>

fun promise_all :: "(error + 'a) list \<Rightarrow> error + 'a list" where
  "promise_all [] = Inr []"
| "promise_all (Inl e # rs) = Inl e"
| "promise_all (Inr v # rs) = (case promise_all rs of Inl e \<Rightarrow> Inl e | Inr vs \<Rightarrow> Inr (v # vs))"

text \<open>
  \<open>_findExistingSessions\<close>, lines 77 to 96. \<open>sessionIds?.length\<close> is falsy for
  \<open>undefined\<close> and for the empty array.
\<close>

definition has_length :: "string list option \<Rightarrow> bool" where
  "has_length sessionIds = (case sessionIds of None \<Rightarrow> False | Some ids \<Rightarrow> ids \<noteq> [])"

definition existing_target :: "device \<times> string list option \<Rightarrow> encryption_target option" where
  "existing_target p =
     (case p of (d, sessionIds) \<Rightarrow>
        if has_length sessionIds
        then (case sessionIds of
                None \<Rightarrow> None
              | Some ids \<Rightarrow> Some (fromSessionId d (findFirstSessionId ids)))
        else None)"

definition findExistingSessions ::
  "env \<Rightarrow> device list \<Rightarrow> error + (device list \<times> encryption_target list)" where
  "findExistingSessions en devices =
     (case promise_all (map (\<lambda>d. getSessionIds en (curve25519Key d)) devices) of
        Inl e \<Rightarrow> Inl e
      | Inr sessionIdsForDevice \<Rightarrow>
          let devicesWithoutSession =
                map fst (filter (\<lambda>p. \<not> has_length (snd p)) (zip devices sessionIdsForDevice));
              existingEncryptionTargets =
                List.map_filter existing_target (zip devices sessionIdsForDevice)
          in Inr (devicesWithoutSession, existingEncryptionTargets))"

text \<open>\<open>_buildPlainTextMessageForDevice\<close>, lines 111 to 124.\<close>

definition buildPlainTextMessageForDevice ::
  "env \<Rightarrow> string \<Rightarrow> json \<Rightarrow> device \<Rightarrow> plain_text_message" where
  "buildPlainTextMessageForDevice en typ cont d =
     \<lparr>keys = [(''ed25519'', identityKeys_ed25519 en)],
      recipient_keys = [(''ed25519'', ed25519Key d)],
      recipient = userId d,
      sender = ownUserId en,
      content = cont,
      type = typ\<rparr>"

text \<open>
  \<open>_encryptForDevice\<close>, lines 98 to 109. Calling \<open>encrypt\<close> on a \<open>null\<close> session is a
  \<open>TypeError\<close>.
\<close>

definition encryptForDevice ::
  "env \<Rightarrow> string \<Rightarrow> json \<Rightarrow> encryption_target \<Rightarrow> error + encrypted_content" where
  "encryptForDevice en typ cont target =
     (case session target of
        None \<Rightarrow> Inl TypeError
      | Some s \<Rightarrow>
          let message = session_encrypt en s
                          (buildPlainTextMessageForDevice en typ cont (device target))
          in Inr \<lparr>algorithm = OLM_ALGORITHM,
                  sender_key = identityKeys_curve25519 en,
                  ciphertext = [(curve25519Key (device target), message)]\<rparr>)"

text \<open>\<open>EncryptionTarget.dispose\<close>, lines 250 to 254, and the loops that call it.\<close>

definition dispose :: "encryption_target \<Rightarrow> world \<Rightarrow> world" where
  "dispose target w =
     (case session target of None \<Rightarrow> w | Some s \<Rightarrow> emit (Freed (handle s)) w)"

definition dispose_all :: "encryption_target list \<Rightarrow> world \<Rightarrow> world" where
  "dispose_all targets w = foldl (\<lambda>w' t. dispose t w') w targets"

text \<open>
  Modelled from the spec: \<open>createSessionEntry\<close> of \<open>Session.js\<close>, which serialises the
  session with the pickle key into a Session Record of the device key, the session id, the
  pickled bytes and the timestamp. Reading a \<open>null\<close> session is a \<open>TypeError\<close>.
\<close>

definition createSessionEntry ::
  "env \<Rightarrow> olm_session option \<Rightarrow> string \<Rightarrow> int \<Rightarrow> string \<Rightarrow> error + session_entry" where
  "createSessionEntry en olmSession senderKey timestamp pk =
     (case olmSession of
        None \<Rightarrow> Inl TypeError
      | Some s \<Rightarrow> Inr \<lparr>se_session = pickle en pk s, se_sessionId = session_id s,
                        se_senderKey = senderKey, se_lastUsed = timestamp\<rparr>)"

text \<open>
  Modelled from the spec: the read-write transaction of the session store, whose
  \<open>complete\<close> commits and whose \<open>abort\<close> rolls back. The writes are pending until
  \<open>complete\<close> succeeds, which upserts them by device key and session id.
\<close>

definition commit ::
  "session_entry list \<Rightarrow> ((string \<times> string) \<times> session_entry) list
     \<Rightarrow> ((string \<times> string) \<times> session_entry) list" where
  "commit pending store =
     foldl (\<lambda>m e. AList.update (se_senderKey e, se_sessionId e) e m) store pending"

text \<open>
  \<open>_storeSessions\<close>, lines 213 to 226: the loop of writes, then \<open>abort\<close> and rethrow
  when a write threw, and \<open>complete\<close> otherwise.
\<close>

fun store_loop ::
  "env \<Rightarrow> int \<Rightarrow> encryption_target list \<Rightarrow> session_entry list \<Rightarrow> error + session_entry list" where
  "store_loop en timestamp [] pending = Inr pending"
| "store_loop en timestamp (target # rest) pending =
     (case createSessionEntry en (session target) (curve25519Key (device target))
             timestamp (pickleKey en) of
        Inl err \<Rightarrow> Inl err
      | Inr sessionEntry \<Rightarrow>
          (case setSession en sessionEntry of
             Some err \<Rightarrow> Inl err
           | None \<Rightarrow> store_loop en timestamp rest (pending @ [sessionEntry])))"

definition storeSessions ::
  "env \<Rightarrow> encryption_target list \<Rightarrow> int \<Rightarrow> world \<Rightarrow> world \<times> (error + unit)" where
  "storeSessions en encryptionTargets timestamp w =
     (case store_loop en timestamp encryptionTargets [] of
        Inl err \<Rightarrow> (emit TxnAbort w, Inl err)
      | Inr pending \<Rightarrow>
          (case complete en pending of
             Some err \<Rightarrow> (emit TxnComplete w, Inl err)
           | None \<Rightarrow> (emit TxnComplete (w\<lparr>durable := commit pending (durable w)\<rparr>), Inr ())))"

text \<open>
  Modelled from the spec: \<open>groupByWithCreator\<close> of \<open>utils/groupBy.js\<close>, the group-by
  with an accumulator that builds the map from user to the collection of that user's
  devices. A JavaScript \<open>Map\<close> keeps one entry per key, in insertion order.
\<close>

definition groupByWithCreator ::
  "'a list \<Rightarrow> ('a \<Rightarrow> 'k) \<Rightarrow> 'c \<Rightarrow> ('c \<Rightarrow> 'a \<Rightarrow> 'c) \<Rightarrow> ('k \<times> 'c) list" where
  "groupByWithCreator array groupFn createCollection addCollectionFn =
     foldl (\<lambda>m v.
              let k = groupFn v;
                  collection = (case map_of m k of None \<Rightarrow> createCollection | Some c \<Rightarrow> c)
              in AList.update k (addCollectionFn collection v) m)
           [] array"

type_synonym devices_by_user = "(string \<times> (string \<times> device) list) list"

text \<open>\<open>_verifyAndCreateOTKTargets\<close>, lines 165 to 185.\<close>

definition lookup_device :: "devices_by_user \<Rightarrow> string \<Rightarrow> string \<Rightarrow> device option" where
  "lookup_device devicesByUser uid did =
     (case map_of devicesByUser uid of None \<Rightarrow> None | Some deviceMap \<Rightarrow> map_of deviceMap did)"

text \<open>\<open>name.split(":")[0]\<close>: the part of the name before its first colon.\<close>

definition split_first :: "string \<Rightarrow> string" where
  "split_first name = takeWhile (\<lambda>c. c \<noteq> CHR '':'') name"

text \<open>
  The body of the inner loop. Destructuring the first entry of an empty device section
  is a \<open>TypeError\<close>.
\<close>

definition otk_target ::
  "env \<Rightarrow> devices_by_user \<Rightarrow> string \<Rightarrow> string \<Rightarrow> device_section
     \<Rightarrow> error + encryption_target list" where
  "otk_target en devicesByUser uid did deviceSection =
     (case deviceSection of
        [] \<Rightarrow> Inl TypeError
      | (firstPropName, keySection) # _ \<Rightarrow>
          let keyAlgorithm = split_first firstPropName in
          if keyAlgorithm = OTK_ALGORITHM then
            (case lookup_device devicesByUser uid did of
               None \<Rightarrow> Inr []
             | Some d \<Rightarrow>
                 if verifyEd25519Signature en uid did (ed25519Key d) keySection
                 then Inr [fromOTK d (key keySection)]
                 else Inr [])
          else Inr [])"

fun device_loop ::
  "env \<Rightarrow> devices_by_user \<Rightarrow> string \<Rightarrow> (string \<times> device_section) list
     \<Rightarrow> encryption_target list \<Rightarrow> error + encryption_target list" where
  "device_loop en devicesByUser uid [] verified = Inr verified"
| "device_loop en devicesByUser uid ((did, deviceSection) # rest) verified =
     (case otk_target en devicesByUser uid did deviceSection of
        Inl err \<Rightarrow> Inl err
      | Inr ts \<Rightarrow> device_loop en devicesByUser uid rest (verified @ ts))"

fun user_loop ::
  "env \<Rightarrow> devices_by_user \<Rightarrow> user_key_map \<Rightarrow> encryption_target list
     \<Rightarrow> error + encryption_target list" where
  "user_loop en devicesByUser [] verified = Inr verified"
| "user_loop en devicesByUser ((uid, userSection) # rest) verified =
     (case device_loop en devicesByUser uid userSection verified of
        Inl err \<Rightarrow> Inl err
      | Inr verified' \<Rightarrow> user_loop en devicesByUser rest verified')"

definition verifyAndCreateOTKTargets ::
  "env \<Rightarrow> user_key_map option \<Rightarrow> devices_by_user \<Rightarrow> error + encryption_target list" where
  "verifyAndCreateOTKTargets en userKeyMap devicesByUser =
     (case userKeyMap of
        None \<Rightarrow> Inl TypeError
      | Some m \<Rightarrow> user_loop en devicesByUser m [])"

text \<open>
  \<open>_claimOneTimeKeys\<close>, lines 142 to 163. Assigning \<open>obj[key] = value\<close> on an object
  literal replaces the value of a key already present and appends a new key, except for
  the key \<open>__proto__\<close>, whose assignment creates no own property: the object is left with
  the properties it had. (The objects are kept in insertion order; JavaScript lists
  index-like keys first, which no statement below depends on.)
\<close>

definition obj_set :: "string \<Rightarrow> json \<Rightarrow> (string \<times> json) list \<Rightarrow> (string \<times> json) list" where
  "obj_set k v obj = (if k = ''__proto__'' then obj else AList.update k v obj)"

definition claim_payload :: "devices_by_user \<Rightarrow> json" where
  "claim_payload devicesByUser =
     (let oneTimeKeys =
            foldl (\<lambda>usersObj (uid, deviceMap).
                     obj_set uid
                       (JObj (foldl (\<lambda>devicesObj (did, d).
                                       obj_set (deviceId d) (JStr OTK_ALGORITHM) devicesObj)
                                    [] deviceMap))
                       usersObj)
                  [] devicesByUser
      in JObj [(''timeout'', JNum 10000), (''one_time_keys'', JObj oneTimeKeys)])"

definition devices_by_user :: "device list \<Rightarrow> devices_by_user" where
  "devices_by_user deviceIdentities =
     groupByWithCreator deviceIdentities userId []
       (\<lambda>deviceMap d. AList.update (deviceId d) d deviceMap)"

definition claimOneTimeKeys ::
  "env \<Rightarrow> hs_api \<Rightarrow> device list \<Rightarrow> world \<Rightarrow> world \<times> (error + encryption_target list)" where
  "claimOneTimeKeys en hsApi deviceIdentities w =
     (let devicesByUser = devices_by_user deviceIdentities;
          payload = claim_payload devicesByUser;
          w1 = emit (ClaimKeys payload) w
      in case hsApi payload of
           Inl err \<Rightarrow> (w1, Inl err)
         | Inr claimResponse \<Rightarrow>
             let userKeyMap = (case claimResponse of None \<Rightarrow> None | Some r \<Rightarrow> one_time_keys r)
             in (w1, verifyAndCreateOTKTargets en userKeyMap devicesByUser))"

text \<open>
  \<open>_createNewSessions\<close>, lines 126 to 140. The loop assigns a session to each target in
  turn; the first \<open>createOutboundOlmSession\<close> that throws leaves the loop, with the
  targets as mutated so far. A session that is created is a fresh native allocation.
\<close>

definition allocate :: "world \<Rightarrow> nat \<times> world" where
  "allocate w =
     (next_handle w, emit (Allocated (next_handle w)) (w\<lparr>next_handle := Suc (next_handle w)\<rparr>))"

fun create_loop ::
  "env \<Rightarrow> encryption_target list \<Rightarrow> encryption_target list \<Rightarrow> world
     \<Rightarrow> world \<times> encryption_target list \<times> error option" where
  "create_loop en [] done w = (w, done, None)"
| "create_loop en (target # rest) done w =
     (case createOutboundOlmSession en (curve25519Key (device target)) (oneTimeKey target) of
        Inl err \<Rightarrow> (w, done @ target # rest, Some err)
      | Inr sid \<Rightarrow>
          (case allocate w of
             (h, w1) \<Rightarrow>
               create_loop en rest
                 (done @ [target\<lparr>session := Some \<lparr>handle = h, session_id = sid\<rparr>\<rparr>]) w1))"

text \<open>
  The call of \<open>_storeSessions\<close> on line 133 is not awaited: the transaction runs, and
  the promise it returns is dropped, so its outcome reaches nobody. The \<open>catch\<close> on
  line 134 disposes every target and does not rethrow: the targets are returned.
\<close>

definition createNewSessions ::
  "env \<Rightarrow> device list \<Rightarrow> hs_api \<Rightarrow> int \<Rightarrow> world
     \<Rightarrow> world \<times> (error + encryption_target list)" where
  "createNewSessions en devicesWithoutSession hsApi timestamp w =
     (case claimOneTimeKeys en hsApi devicesWithoutSession w of
        (w1, Inl err) \<Rightarrow> (w1, Inl err)
      | (w1, Inr claimed) \<Rightarrow>
          (case create_loop en claimed [] w1 of
             (w2, newEncryptionTargets, None) \<Rightarrow>
               (fst (storeSessions en newEncryptionTargets timestamp w2),
                Inr newEncryptionTargets)
           | (w2, newEncryptionTargets, Some err) \<Rightarrow>
               (dispose_all newEncryptionTargets w2, Inr newEncryptionTargets)))"

text \<open>
  \<open>_loadSessions\<close>, lines 187 to 211. The callback of a target continues when its read
  settles. The reads settle in the order the store decides: the targets that
  \<open>load_order\<close> lists, then the others in the order they were issued.
\<close>

definition settle_order :: "nat \<Rightarrow> nat list \<Rightarrow> nat list" where
  "settle_order n order =
     remdups (filter (\<lambda>i. i < n) order) @ filter (\<lambda>i. i \<notin> set order) [0 ..< n]"

text \<open>
  The continuation of one callback, lines 195 to 201, with the value of the flag
  \<open>failed\<close> at that moment: the world, the targets, and the error it throws, if any.
  An unpickle that throws leaves its new session unassigned.
\<close>

definition settle_one ::
  "env \<Rightarrow> nat \<Rightarrow> encryption_target list \<Rightarrow> bool \<Rightarrow> world
     \<Rightarrow> world \<times> encryption_target list \<times> error option" where
  "settle_one en i encryptionTargets failed w =
     (if i < length encryptionTargets then
        (let encryptionTarget = encryptionTargets ! i in
         case getSession en (curve25519Key (device encryptionTarget))
                (sessionId encryptionTarget) of
           Inl err \<Rightarrow> (w, encryptionTargets, Some err)
         | Inr None \<Rightarrow> (w, encryptionTargets, None)
         | Inr (Some sessionEntry) \<Rightarrow>
             if failed then (w, encryptionTargets, None)
             else
               (case allocate w of
                  (h, w1) \<Rightarrow>
                    (case unpickle en (pickleKey en) (se_session sessionEntry) of
                       Inl err \<Rightarrow> (w1, encryptionTargets, Some err)
                     | Inr sid \<Rightarrow>
                         (w1,
                          encryptionTargets
                            [i := encryptionTarget\<lparr>session := Some \<lparr>handle = h, session_id = sid\<rparr>\<rparr>],
                          None))))
      else (w, encryptionTargets, None))"

text \<open>
  The reads settling one after the other. \<open>rejected\<close> is the error with which
  \<open>Promise.all\<close> has rejected, the first one thrown. The \<open>catch\<close> of line 203 does
  not run at once: the continuations already queued run before it, so \<open>catch_delay\<close>
  further reads settle first, with \<open>failed\<close> still false (\<open>pending\<close> counts them down),
  and it runs at the latest when every read has settled. The \<open>catch\<close> sets \<open>failed\<close>
  and disposes every target; a read that settles after it allocates nothing.
\<close>

fun settle_loop ::
  "env \<Rightarrow> nat list \<Rightarrow> encryption_target list \<Rightarrow> error option \<Rightarrow> bool \<Rightarrow> nat option \<Rightarrow> world
     \<Rightarrow> world \<times> encryption_target list \<times> error option" where
  "settle_loop en [] ts rejected failed pending w =
     (case pending of
        None \<Rightarrow> (w, ts, rejected)
      | Some k \<Rightarrow> (dispose_all ts w, ts, rejected))"
| "settle_loop en (i # later) ts rejected failed pending w =
     (case settle_one en i ts failed w of
        (w1, ts1, thrown) \<Rightarrow>
          let newly = (thrown \<noteq> None \<and> rejected = None);
              rejected1 = (if rejected = None then thrown else rejected);
              pending1 = (if newly then Some (catch_delay en)
                          else map_option (\<lambda>k. k - 1) pending)
          in if pending1 = Some 0
             then settle_loop en later ts1 rejected1 True None (dispose_all ts1 w1)
             else settle_loop en later ts1 rejected1 failed pending1 w1)"

definition loadSessions ::
  "env \<Rightarrow> encryption_target list \<Rightarrow> world \<Rightarrow> world \<times> (error + encryption_target list)" where
  "loadSessions en encryptionTargets w =
     (case settle_loop en
             (settle_order (length encryptionTargets)
                (load_order en (length encryptionTargets)))
             encryptionTargets None False None w of
        (w1, loaded, Some err) \<Rightarrow> (w1, Inl err)
      | (w1, loaded, None) \<Rightarrow> (w1, Inr loaded))"

text \<open>
  \<open>encrypt\<close>, lines 44 to 75. The callback of \<open>map\<close> on lines 64 to 67 declares its own
  \<open>const content\<close> and reads \<open>content\<close> in the initialiser of that declaration: the
  name is bound to the block's constant, which is not yet initialised, and reading it
  throws a \<open>ReferenceError\<close>. The parameter \<open>content\<close> of \<open>encrypt\<close> is shadowed there.
\<close>

definition read_binding :: "'a option \<Rightarrow> error + 'a" where
  "read_binding b = (case b of None \<Rightarrow> Inl ReferenceError | Some v \<Rightarrow> Inr v)"

definition encrypt_callback ::
  "env \<Rightarrow> string \<Rightarrow> encryption_target \<Rightarrow> error + encrypted_message" where
  "encrypt_callback en typ target =
     (let content_of_block = (None :: json option) in
      case read_binding content_of_block of
        Inl err \<Rightarrow> Inl err
      | Inr cont \<Rightarrow>
          (case encryptForDevice en typ cont target of
             Inl err \<Rightarrow> Inl err
           | Inr c \<Rightarrow> Inr \<lparr>em_content = c, em_device = device target\<rparr>))"

definition encrypt ::
  "env \<Rightarrow> string \<Rightarrow> json \<Rightarrow> device list \<Rightarrow> hs_api \<Rightarrow> world
     \<Rightarrow> world \<times> (error + encrypted_message list)" where
  "encrypt en typ cont devices hsApi w =
     (case findExistingSessions en devices of
        Inl err \<Rightarrow> (w, Inl err)
      | Inr (devicesWithoutSession, existingEncryptionTargets) \<Rightarrow>
          let timestamp = now en in
          (case (if devicesWithoutSession \<noteq> []
                 then createNewSessions en devicesWithoutSession hsApi timestamp w
                 else (w, Inr [])) of
             (w1, Inl err) \<Rightarrow> (w1, Inl err)
           | (w1, Inr newEncryptionTargets) \<Rightarrow>
               (case loadSessions en existingEncryptionTargets w1 of
                  (w2, Inl err) \<Rightarrow> (dispose_all newEncryptionTargets w2, Inl err)
                | (w2, Inr loaded) \<Rightarrow>
                    let encryptionTargets = newEncryptionTargets @ loaded in
                    (case promise_all (map (encrypt_callback en typ) encryptionTargets) of
                       Inl err \<Rightarrow> (dispose_all encryptionTargets w2, Inl err)
                     | Inr messages \<Rightarrow>
                         (case storeSessions en encryptionTargets timestamp w2 of
                            (w3, Inl err) \<Rightarrow> (dispose_all encryptionTargets w3, Inl err)
                          | (w3, Inr u) \<Rightarrow> (dispose_all encryptionTargets w3, Inr messages))))))"

section \<open>Sample data\<close>

definition devA :: device where
  "devA = \<lparr>userId = ''@alice:hs'', deviceId = ''DEVA'', curve25519Key = ''curveA'', ed25519Key = ''edA''\<rparr>"

definition devB :: device where
  "devB = \<lparr>userId = ''@bob:hs'', deviceId = ''DEVB'', curve25519Key = ''curveB'', ed25519Key = ''edB''\<rparr>"

definition devN :: device where
  "devN = \<lparr>userId = ''@carol:hs'', deviceId = ''DEVN'', curve25519Key = ''curveN'', ed25519Key = ''edN''\<rparr>"

definition devM :: device where
  "devM = \<lparr>userId = ''@carol:hs'', deviceId = ''DEVM'', curve25519Key = ''curveM'', ed25519Key = ''edM''\<rparr>"

text \<open>
  A store in which device A has the session \<open>s1\<close>, device B the sessions \<open>s3\<close> and
  \<open>s1\<close>, and no other device has any; every collaborator succeeds, reads settle in
  the order they were issued, and a \<open>catch\<close> runs before any further read settles.
\<close>

definition env0 :: env where
  "env0 =
     \<lparr>identityKeys_curve25519 = ''ownCurve'',
      identityKeys_ed25519 = ''ownEd'',
      ownUserId = ''@me:hs'',
      now = 1000,
      pickleKey = ''pk'',
      getSessionIds = (\<lambda>k. if k = ''curveA'' then Inr (Some [''s1''])
                          else if k = ''curveB'' then Inr (Some [''s3'', ''s1''])
                          else Inr (Some [])),
      getSession = (\<lambda>k sid. if (k = ''curveA'' \<or> k = ''curveB'') \<and> sid = Some ''s1''
                             then Inr (Some \<lparr>se_session = ''pickled'', se_sessionId = ''s1'',
                                              se_senderKey = k, se_lastUsed = 500\<rparr>)
                             else Inr None),
      setSession = (\<lambda>e. None),
      complete = (\<lambda>es. None),
      verifyEd25519Signature = (\<lambda>uid did k section. signatures section = JStr (''signed by '' @ k)),
      createOutboundOlmSession = (\<lambda>k otk. Inr (''new for '' @ k)),
      unpickle = (\<lambda>pk p. Inr ''s1''),
      pickle = (\<lambda>pk s. ''pickled''),
      session_encrypt = (\<lambda>s p. \<lparr>msg_type = 0, body = ''cipher''\<rparr>),
      load_order = (\<lambda>n. []),
      catch_delay = 0\<rparr>"

definition w0 :: world where
  "w0 = \<lparr>next_handle = 0, trace = [], durable = []\<rparr>"

text \<open>A key-claim response with a correctly signed one-time key for the devices N and M.\<close>

definition hsApi0 :: hs_api where
  "hsApi0 = (\<lambda>payload. Inr (Some \<lparr>one_time_keys = Some
       [(''@carol:hs'',
          [(''DEVN'', [(''signed_curve25519:AAAA'',
                        \<lparr>key = ''otkN'', signatures = JStr ''signed by edN''\<rparr>)]),
           (''DEVM'', [(''signed_curve25519:AAAB'',
                        \<lparr>key = ''otkM'', signatures = JStr ''signed by edM''\<rparr>)])])]\<rparr>))"

text \<open>Collaborators that fail: session creation for one device key, and every store write.\<close>

definition env_create_fails :: "string \<Rightarrow> env" where
  "env_create_fails bad =
     env0\<lparr>createOutboundOlmSession :=
             (\<lambda>k otk. if k = bad then Inl (OlmError ''bad key'') else Inr (''new for '' @ k))\<rparr>"

definition env_write_fails :: env where
  "env_write_fails = env0\<lparr>setSession := (\<lambda>e. Some (StorageError ''quota''))\<rparr>"

section \<open>Notions used in the statements\<close>


text \<open>
  The device sections of a key-claim response in the order the loops of
  \<open>_verifyAndCreateOTKTargets\<close> visit them, the response without the sections of one
  device, and the response with each section cut down to its first key.
\<close>

definition entries :: "user_key_map \<Rightarrow> (string \<times> string \<times> device_section) list" where
  "entries m = concat (map (\<lambda>(uid, userSection).
                              map (\<lambda>(did, deviceSection). (uid, did, deviceSection)) userSection) m)"

definition drop_entries :: "string \<Rightarrow> string \<Rightarrow> user_key_map \<Rightarrow> user_key_map" where
  "drop_entries uid did m =
     map (\<lambda>(u, userSection). (u, filter (\<lambda>(i, deviceSection). \<not> (u = uid \<and> i = did)) userSection)) m"

definition first_keys_only :: "user_key_map \<Rightarrow> user_key_map" where
  "first_keys_only m =
     map (\<lambda>(u, userSection). (u, map (\<lambda>(i, deviceSection). (i, take 1 deviceSection)) userSection)) m"

text \<open>
  A device section whose first key declares an algorithm other than
  \<open>signed_curve25519\<close> or carries a signature that does not verify against the device's
  own ed25519 key.
\<close>

definition rejected_key :: "env \<Rightarrow> device \<Rightarrow> device_section \<Rightarrow> bool" where
  "rejected_key en d deviceSection =
     (case deviceSection of
        [] \<Rightarrow> False
      | (firstPropName, keySection) # others \<Rightarrow>
          split_first firstPropName \<noteq> OTK_ALGORITHM
          \<or> \<not> verifyEd25519Signature en (userId d) (deviceId d) (ed25519Key d) keySection)"

text \<open>
  A key-claim response whose key for device N is an unsigned \<open>curve25519\<close> key and whose
  key for device M carries a signature made with another key.
\<close>

definition rejected_map :: user_key_map where
  "rejected_map =
       [(''@carol:hs'',
          [(''DEVN'', [(''curve25519:AAAA'',
                        \<lparr>key = ''otkN'', signatures = JStr ''signed by edN''\<rparr>)]),
           (''DEVM'', [(''signed_curve25519:AAAB'',
                        \<lparr>key = ''otkM'', signatures = JStr ''signed by edX''\<rparr>)])])]"

definition hsApi_rejected :: hs_api where
  "hsApi_rejected = (\<lambda>payload. Inr (Some \<lparr>one_time_keys = Some rejected_map\<rparr>))"

text \<open>One step of the grouping of the devices by user and device id.\<close>

definition group_step :: "devices_by_user \<Rightarrow> device \<Rightarrow> devices_by_user" where
  "group_step m v =
     AList.update (userId v)
       (AList.update (deviceId v) v (case map_of m (userId v) of None \<Rightarrow> [] | Some c \<Rightarrow> c)) m"

text \<open>Reading a property of a JSON object, and its property names in order.\<close>

fun json_get :: "json \<Rightarrow> string \<Rightarrow> json option" where
  "json_get (JObj kvs) k = map_of kvs k"
| "json_get (JStr s) k = None"
| "json_get (JNum n) k = None"

fun json_keys :: "json \<Rightarrow> string list" where
  "json_keys (JObj kvs) = map fst kvs"
| "json_keys (JStr s) = []"
| "json_keys (JNum n) = []"

text \<open>
  The handles of the sessions that a list of targets holds; a world in which only handles
  already allocated have been freed; and the error with which the load of one target
  fails inside \<open>_loadSessions\<close>, if it does.
\<close>

definition handles_of :: "encryption_target list \<Rightarrow> nat list" where
  "handles_of targets =
     concat (map (\<lambda>t. case session t of None \<Rightarrow> [] | Some s \<Rightarrow> [handle s]) targets)"

definition tidy :: "world \<Rightarrow> bool" where
  "tidy w = (\<forall>h. Freed h \<in> set (trace w) \<longrightarrow> h < next_handle w)"

definition load_error :: "env \<Rightarrow> encryption_target \<Rightarrow> error option" where
  "load_error en target =
     (case getSession en (curve25519Key (device target)) (sessionId target) of
        Inl err \<Rightarrow> Some err
      | Inr None \<Rightarrow> None
      | Inr (Some sessionEntry) \<Rightarrow>
          (case unpickle en (pickleKey en) (se_session sessionEntry) of
             Inl err \<Rightarrow> Some err
           | Inr sid \<Rightarrow> None))"

text \<open>A store whose read of the session of device A fails.\<close>

definition env_read_fails :: env where
  "env_read_fails =
     env0\<lparr>getSession := (\<lambda>k sid. if k = ''curveA'' then Inl (StorageError ''read'')
                                   else getSession env0 k sid)\<rparr>"

text \<open>
  The same store, with one further read settling before the \<open>catch\<close> of
  \<open>_loadSessions\<close> runs.
\<close>

definition env_same_tick :: env where
  "env_same_tick = env_read_fails\<lparr>catch_delay := 1\<rparr>"

text \<open>
  The state of a load phase before its \<open>catch\<close> has run: the targets hold distinct
  sessions, all allocated by the phase (from the handle \<open>n\<close> on), and none of them has
  been freed.
\<close>

definition loading :: "nat \<Rightarrow> encryption_target list \<Rightarrow> world \<Rightarrow> bool" where
  "loading n ts w =
     (distinct (handles_of ts) \<and> n \<le> next_handle w
      \<and> (\<forall>h\<in>set (handles_of ts). n \<le> h \<and> h < next_handle w)
      \<and> (\<forall>h. Freed h \<in> set (trace w) \<longrightarrow> h < n))"

text \<open>The key-claim requests among the events of a world.\<close>

fun is_claim :: "event \<Rightarrow> bool" where
  "is_claim (ClaimKeys payload) = True"
| "is_claim (Allocated h) = False"
| "is_claim (Freed h) = False"
| "is_claim TxnAbort = False"
| "is_claim TxnComplete = False"

definition claim_requests :: "world \<Rightarrow> event list" where
  "claim_requests w = filter is_claim (trace w)"

text \<open>
  Targets of the devices N and M that hold the sessions created for them, and a store
  that rejects the write of the record of device M only.
\<close>

definition targetN :: encryption_target where
  "targetN = \<lparr>device = devN, oneTimeKey = Some ''otkN'', sessionId = None,
              session = Some \<lparr>handle = 0, session_id = ''new for curveN''\<rparr>\<rparr>"

definition targetM :: encryption_target where
  "targetM = \<lparr>device = devM, oneTimeKey = Some ''otkM'', sessionId = None,
              session = Some \<lparr>handle = 1, session_id = ''new for curveM''\<rparr>\<rparr>"

definition env_second_write_fails :: env where
  "env_second_write_fails =
     env0\<lparr>setSession := (\<lambda>e. if se_senderKey e = ''curveM''
                              then Some (StorageError ''quota'') else None)\<rparr>"

text \<open>
  The two objects that \<open>_claimOneTimeKeys\<close> builds, per user and per device of a user,
  and a device whose id is the property name \<open>__proto__\<close>.
\<close>

definition devices_obj :: "(string \<times> device) list \<Rightarrow> (string \<times> json) list" where
  "devices_obj dm = foldl (\<lambda>acc y. obj_set (deviceId (snd y)) (JStr OTK_ALGORITHM) acc) [] dm"

definition users_obj :: "devices_by_user \<Rightarrow> (string \<times> json) list" where
  "users_obj dbu = foldl (\<lambda>acc x. obj_set (fst x) (JObj (devices_obj (snd x))) acc) [] dbu"

definition devP :: device where
  "devP = \<lparr>userId = ''@carol:hs'', deviceId = ''__proto__'', curve25519Key = ''curveP'',
           ed25519Key = ''edP''\<rparr>"

section \<open>Evaluating the model\<close>

lemmas model_defs =
  encrypt_def findExistingSessions_def existing_target_def has_length_def findFirstSessionId_def
  reducer_def falsy_def fromSessionId_def fromOTK_def List.map_filter_def
  createNewSessions_def claimOneTimeKeys_def devices_by_user_def groupByWithCreator_def
  claim_payload_def verifyAndCreateOTKTargets_def otk_target_def split_first_def lookup_device_def
  OTK_ALGORITHM_def storeSessions_def createSessionEntry_def commit_def
  loadSessions_def settle_order_def settle_one_def obj_set_def
  allocate_def emit_def dispose_all_def dispose_def
  encrypt_callback_def read_binding_def encryptForDevice_def Let_def

lemmas sample_defs = env0_def w0_def hsApi0_def devA_def devB_def devN_def devM_def

section \<open>Effects on the world\<close>

lemma handles_of_simps [simp]:
  "handles_of [] = []"
  "handles_of (t # ts) = (case session t of None \<Rightarrow> [] | Some s \<Rightarrow> [handle s]) @ handles_of ts"
  "handles_of (xs @ ys) = handles_of xs @ handles_of ys"
  by (simp_all add: handles_of_def)

lemma handles_of_none: "\<forall>t\<in>set ts. session t = None \<Longrightarrow> handles_of ts = []"
  by (induction ts) simp_all

lemma dispose_all_world:
  "dispose_all ts w = w\<lparr>trace := trace w @ map Freed (handles_of ts)\<rparr>"
proof (induction ts arbitrary: w)
  case Nil then show ?case by (simp add: dispose_all_def)
next
  case (Cons t ts)
  have "dispose_all (t # ts) w = dispose_all ts (dispose t w)"
    by (simp add: dispose_all_def)
  then show ?case
    by (simp add: Cons.IH dispose_def emit_def split: option.splits)
qed

lemma claimOneTimeKeys_world:
  "fst (claimOneTimeKeys en hsApi devices w)
     = emit (ClaimKeys (claim_payload (devices_by_user devices))) w"
  by (simp add: claimOneTimeKeys_def Let_def split: sum.splits)

lemma storeSessions_world:
  "next_handle (fst (storeSessions en ts timestamp w)) = next_handle w"
  "(Freed h \<in> set (trace (fst (storeSessions en ts timestamp w)))) = (Freed h \<in> set (trace w))"
  by (auto simp: storeSessions_def emit_def split: sum.splits option.splits)

section \<open>Selecting the current session\<close>

lemma promise_all_Inr: "promise_all rs = Inr vs \<Longrightarrow> rs = map Inr vs"
proof (induction rs arbitrary: vs rule: promise_all.induct)
  case 1 then show ?case by simp
next
  case (2 e rs) then show ?case by simp
next
  case (3 v rs) then show ?case by (auto split: sum.splits)
qed

lemma reducer_min: "a \<noteq> [] \<Longrightarrow> reducer (Some a) x = Some (min x a)"
  by (auto simp: reducer_def falsy_def min_def)

lemma reducer_fold:
  "a \<noteq> [] \<Longrightarrow> [] \<notin> set ids \<Longrightarrow> foldl reducer (Some a) ids = Some (fold min ids a)"
proof (induction ids arbitrary: a)
  case Nil then show ?case by simp
next
  case (Cons x xs)
  have "min x a \<noteq> []" using Cons.prems by (auto simp: min_def)
  then show ?case using Cons by (simp add: reducer_min)
qed

lemma findFirstSessionId_Min:
  assumes "ids \<noteq> []" "[] \<notin> set ids"
  shows "findFirstSessionId ids = Some (Min (set ids))"
proof -
  obtain x xs where ids: "ids = x # xs" using assms(1) by (cases ids) auto
  have "foldl reducer None (x # xs) = foldl reducer (Some x) xs"
    by (simp add: reducer_def falsy_def)
  also have "\<dots> = Some (fold min xs x)" using assms(2) ids by (intro reducer_fold) auto
  also have "fold min xs x = Min (set (x # xs))" by (rule Min.set_eq_fold[symmetric])
  finally show ?thesis by (simp add: findFirstSessionId_def ids)
qed

lemma zip_settled:
  "map f xs = map Inr vs \<Longrightarrow>
     zip xs vs = map (\<lambda>x. (x, projr (f x))) xs \<and> (\<forall>x\<in>set xs. f x = Inr (projr (f x)))"
proof (induction xs arbitrary: vs)
  case Nil then show ?case by simp
next
  case (Cons x xs)
  then obtain v vs' where vs: "vs = v # vs'" by (cases vs) auto
  with Cons.prems have "f x = Inr v" "map f xs = map Inr vs'" by auto
  with Cons.IH[of vs'] vs show ?case by simp
qed

lemma findExistingSessions_result:
  assumes "findExistingSessions en devices = Inr (without, existing)"
  shows "without = filter (\<lambda>d. \<not> has_length (projr (getSessionIds en (curve25519Key d)))) devices"
    and "existing = List.map_filter
           (\<lambda>d. existing_target (d, projr (getSessionIds en (curve25519Key d)))) devices"
    and "\<forall>d\<in>set devices. getSessionIds en (curve25519Key d)
           = Inr (projr (getSessionIds en (curve25519Key d)))"
proof -
  obtain vs where pa: "promise_all (map (\<lambda>d. getSessionIds en (curve25519Key d)) devices) = Inr vs"
    using assms by (auto simp: findExistingSessions_def split: sum.splits)
  note z = zip_settled[OF promise_all_Inr[OF pa]]
  from z show "\<forall>d\<in>set devices. getSessionIds en (curve25519Key d)
           = Inr (projr (getSessionIds en (curve25519Key d)))" by simp
  from assms pa z show "without = filter (\<lambda>d. \<not> has_length (projr (getSessionIds en (curve25519Key d)))) devices"
    by (simp add: findExistingSessions_def Let_def filter_map comp_def)
  from assms pa z show "existing = List.map_filter
           (\<lambda>d. existing_target (d, projr (getSessionIds en (curve25519Key d)))) devices"
    by (simp add: findExistingSessions_def Let_def List.map_filter_def filter_map comp_def)
qed

text \<open>
  C3. A session id is the digest that \<open>session_id()\<close> of an Olm session returns, never
  the empty string. For a device whose store lookup returns one or more session ids,
  \<open>_findExistingSessions\<close> routes the device to the existing sessions, and the session
  id of its target is the lexicographically smallest of the ids, whatever the order in
  which they are returned; for the ids \<open>s3\<close>, \<open>s1\<close> it is \<open>s1\<close>.
\<close>

theorem selects_smallest_session_id:
  assumes "findExistingSessions en devices = Inr (devicesWithoutSession, existing)"
    and "d \<in> set devices"
    and "getSessionIds en (curve25519Key d) = Inr (Some ids)"
    and "ids \<noteq> []" and "[] \<notin> set ids"
  shows "fromSessionId d (Some (Min (set ids))) \<in> set existing
       \<and> (\<forall>t\<in>set existing. device t = d \<longrightarrow> sessionId t = Some (Min (set ids)))
       \<and> d \<notin> set devicesWithoutSession
       \<and> (\<forall>ids'. set ids' = set ids \<longrightarrow> findFirstSessionId ids' = Some (Min (set ids)))"
proof -
  note fz = findExistingSessions_result[OF assms(1)]
  have sel: "findFirstSessionId ids = Some (Min (set ids))"
    using assms(4,5) by (rule findFirstSessionId_Min)
  have et: "existing_target (d, Some ids) = Some (fromSessionId d (Some (Min (set ids))))"
    using assms(4) sel by (simp add: existing_target_def has_length_def)
  have 1: "fromSessionId d (Some (Min (set ids))) \<in> set existing"
    using assms(2,3) et by (force simp: fz(2) List.map_filter_def)
  have 2: "\<forall>t\<in>set existing. device t = d \<longrightarrow> sessionId t = Some (Min (set ids))"
  proof (intro ballI impI)
    fix t assume t: "t \<in> set existing" and dt: "device t = d"
    then obtain d' where d': "d' \<in> set devices"
      and e: "existing_target (d', projr (getSessionIds en (curve25519Key d'))) = Some t"
      by (auto simp: fz(2) List.map_filter_def)
    from e have "device t = d'"
      by (auto simp: existing_target_def fromSessionId_def split: if_splits option.splits)
    with dt have "d' = d" by simp
    with e assms(3) et have "t = fromSessionId d (Some (Min (set ids)))"
      by simp
    then show "sessionId t = Some (Min (set ids))"
      by (simp add: fromSessionId_def)
  qed
  have 3: "d \<notin> set devicesWithoutSession"
    using assms(3,4) by (simp add: fz(1) has_length_def)
  have 4: "\<forall>ids'. set ids' = set ids \<longrightarrow> findFirstSessionId ids' = Some (Min (set ids))"
  proof (intro allI impI)
    fix ids' assume s: "set ids' = set ids"
    with assms(4,5) have "ids' \<noteq> []" "[] \<notin> set ids'" by auto
    then show "findFirstSessionId ids' = Some (Min (set ids))"
      using findFirstSessionId_Min s by metis
  qed
  from 1 2 3 4 show ?thesis by blast
qed

theorem selects_smallest_session_id_witness:
  "findExistingSessions env0 [devA, devB]
     = Inr ([], [fromSessionId devA (Some ''s1''), fromSessionId devB (Some ''s1'')])
   \<and> getSessionIds env0 (curve25519Key devB) = Inr (Some [''s3'', ''s1''])
   \<and> fromSessionId devB (Some (Min (set [''s3'', ''s1''])))
         \<in> set [fromSessionId devA (Some ''s1''), fromSessionId devB (Some ''s1'')]
   \<and> Min (set [''s3'', ''s1'']) = ''s1''
   \<and> findFirstSessionId [''s1'', ''s3''] = Some (Min (set [''s3'', ''s1'']))"
proof -
  have h1: "findExistingSessions env0 [devA, devB]
     = Inr ([], [fromSessionId devA (Some ''s1''), fromSessionId devB (Some ''s1'')])"
    by (simp add: findExistingSessions_def env0_def devA_def devB_def List.map_filter_def
        existing_target_def has_length_def findFirstSessionId_def reducer_def falsy_def)
  have h2: "devB \<in> set [devA, devB]" by simp
  have h3: "getSessionIds env0 (curve25519Key devB) = Inr (Some [''s3'', ''s1''])"
    by (simp add: env0_def devB_def)
  have h4: "[''s3'', ''s1''] \<noteq> []" by simp
  have h5: "[] \<notin> set [''s3'', ''s1'']" by simp
  note th = selects_smallest_session_id[OF h1 h2 h3 h4 h5]
  have m: "Min (set [''s3'', ''s1'']) = ''s1''" by simp
  have "set [''s1'', ''s3''] = set [''s3'', ''s1'']" by auto
  with th have "findFirstSessionId [''s1'', ''s3''] = Some (Min (set [''s3'', ''s1'']))"
    by blast
  with th h1 h3 m show ?thesis by blast
qed

section \<open>What the top-level call returns\<close>

text \<open>
  C1 (the code departs from the claim). Device A has the stored session \<open>s1\<close>, which
  loads: the device holds a live session, and the claim promises one message for it. The
  callback of \<open>map\<close> reads its own uninitialised \<open>content\<close>, so the call raises a
  \<open>ReferenceError\<close> and returns no message; the session is freed by the \<open>finally\<close>.
\<close>

theorem encrypt_with_live_session_raises:
  "encrypt env0 ''m.room.message'' (JStr ''hi'') [devA] hsApi0 w0
     = (\<lparr>next_handle = 1, trace = [Allocated 0, Freed 0], durable = []\<rparr>, Inl ReferenceError)"
  by (simp add: model_defs sample_defs)

text \<open>
  C2 (the code departs from the claim). The devices N and M need new sessions and both
  one-time keys verify; the session of N is created, the creation for M throws. The
  \<open>catch\<close> of \<open>_createNewSessions\<close> disposes the targets and still returns them, and the
  \<open>finally\<close> of \<open>encrypt\<close> disposes them again: the session of N is freed twice.
\<close>

theorem session_freed_twice_after_failed_creation:
  "encrypt (env_create_fails ''curveM'') ''m.room.message'' (JStr ''hi'') [devN, devM] hsApi0 w0
     = (\<lparr>next_handle = 1,
         trace = [ClaimKeys (claim_payload (devices_by_user [devN, devM])),
                  Allocated 0, Freed 0, Freed 0],
         durable = []\<rparr>, Inl ReferenceError)
   \<and> count_list [ClaimKeys (claim_payload (devices_by_user [devN, devM])),
                  Allocated 0, Freed 0, Freed 0] (Freed 0) = 2"
  by (simp add: model_defs sample_defs env_create_fails_def)

text \<open>
  C5 (the code departs from the claim). First, device N needs a new session, its key
  verifies and its session is created, and the store write of the eager persistence
  throws: the transaction is aborted, the unawaited outcome is dropped, and the call
  goes on to the encryption step with nothing persisted (it ends in the
  \<open>ReferenceError\<close> of that step, not in the storage error). Second, the devices N and M
  both have a verified key and the creation for N throws: no session is created for M
  and nothing is persisted, and the call goes on all the same.
\<close>

theorem new_session_not_persisted_before_encryption:
  "encrypt env_write_fails ''m.room.message'' (JStr ''hi'') [devN] hsApi0 w0
     = (\<lparr>next_handle = 1,
         trace = [ClaimKeys (claim_payload (devices_by_user [devN])),
                  Allocated 0, TxnAbort, Freed 0],
         durable = []\<rparr>, Inl ReferenceError)
   \<and> encrypt (env_create_fails ''curveN'') ''m.room.message'' (JStr ''hi'') [devN, devM] hsApi0 w0
     = (\<lparr>next_handle = 0,
         trace = [ClaimKeys (claim_payload (devices_by_user [devN, devM]))],
         durable = []\<rparr>, Inl ReferenceError)"
  by (simp add: model_defs sample_defs env_write_fails_def env_create_fails_def)


text \<open>
  C7 (the code departs from the claim). By itself \<open>_storeSessions\<close> aborts and rethrows:
  with the write for device N accepted and the write for device M refused, it fails with
  the storage error and leaves the store as it was. In \<open>encrypt\<close> the one persistence
  step that runs with targets is the unawaited one of \<open>_createNewSessions\<close>: its error
  is dropped, and the call goes on and ends in the \<open>ReferenceError\<close> of the encryption
  step, not in the storage error.
\<close>

theorem failed_write_is_not_reraised:
  "storeSessions env_second_write_fails [targetN, targetM] 1000
       \<lparr>next_handle = 2, trace = [], durable = []\<rparr>
     = (\<lparr>next_handle = 2, trace = [TxnAbort], durable = []\<rparr>, Inl (StorageError ''quota''))
   \<and> encrypt env_second_write_fails ''m.room.message'' (JStr ''hi'') [devN, devM] hsApi0 w0
     = (\<lparr>next_handle = 2,
         trace = [ClaimKeys (claim_payload (devices_by_user [devN, devM])),
                  Allocated 0, Allocated 1, TxnAbort, Freed 0, Freed 1],
         durable = []\<rparr>, Inl ReferenceError)"
  by (simp add: model_defs sample_defs targetN_def targetM_def env_second_write_fails_def)

section \<open>Claimed one-time keys\<close>

lemma promise_all_append:
  "promise_all (xs @ ys) =
     (case promise_all xs of
        Inl e \<Rightarrow> Inl e
      | Inr vs \<Rightarrow> (case promise_all ys of Inl e \<Rightarrow> Inl e | Inr ws \<Rightarrow> Inr (vs @ ws)))"
  by (induction xs rule: promise_all.induct) (auto split: sum.splits)

lemma device_loop_flat:
  "device_loop en dbu uid ds acc =
     (case promise_all (map (\<lambda>(did, sec). otk_target en dbu uid did sec) ds) of
        Inl e \<Rightarrow> Inl e
      | Inr tss \<Rightarrow> Inr (acc @ concat tss))"
proof (induction ds arbitrary: acc)
  case Nil then show ?case by simp
next
  case (Cons p ds)
  obtain did sec where p: "p = (did, sec)" by (cases p)
  show ?case by (simp add: p Cons.IH split: sum.splits)
qed

lemma user_loop_flat:
  "user_loop en dbu m acc =
     (case promise_all (map (\<lambda>(uid, did, sec). otk_target en dbu uid did sec) (entries m)) of
        Inl e \<Rightarrow> Inl e
      | Inr tss \<Rightarrow> Inr (acc @ concat tss))"
proof (induction m arbitrary: acc)
  case Nil then show ?case by (simp add: entries_def)
next
  case (Cons p m)
  obtain uid ds where p: "p = (uid, ds)" by (cases p)
  let ?F = "\<lambda>(uid, did, sec). otk_target en dbu uid did sec"
  let ?G = "\<lambda>(did, sec). otk_target en dbu uid did sec"
  have e: "entries ((uid, ds) # m) = map (\<lambda>(did, sec). (uid, did, sec)) ds @ entries m"
    by (simp add: entries_def)
  have c: "map ?F (map (\<lambda>(did, sec). (uid, did, sec)) ds) = map ?G ds"
    by (simp add: comp_def case_prod_unfold)
  have pa: "promise_all (map ?F (entries ((uid, ds) # m))) =
     (case promise_all (map ?G ds) of
        Inl e \<Rightarrow> Inl e
      | Inr vs \<Rightarrow> (case promise_all (map ?F (entries m)) of
                     Inl e \<Rightarrow> Inl e | Inr ws \<Rightarrow> Inr (vs @ ws)))"
    by (simp only: e map_append c promise_all_append)
  show ?case
    unfolding p pa
    by (simp add: device_loop_flat[of en dbu uid ds acc] Cons.IH split: sum.splits)
qed

lemma verify_flat:
  "verifyAndCreateOTKTargets en (Some m) dbu =
     (case promise_all (map (\<lambda>(uid, did, sec). otk_target en dbu uid did sec) (entries m)) of
        Inl e \<Rightarrow> Inl e
      | Inr tss \<Rightarrow> Inr (concat tss))"
  by (simp add: verifyAndCreateOTKTargets_def user_loop_flat split: sum.splits)

lemma otk_target_Inr:
  assumes "otk_target en dbu uid did sec = Inr ts" "t \<in> set ts"
  shows "\<exists>p ks others d. sec = (p, ks) # others \<and> split_first p = OTK_ALGORITHM
           \<and> lookup_device dbu uid did = Some d
           \<and> verifyEd25519Signature en uid did (ed25519Key d) ks
           \<and> t = fromOTK d (key ks)"
  using assms
  by (auto simp: otk_target_def Let_def split: list.splits option.splits if_splits)

lemma verify_targets:
  assumes "verifyAndCreateOTKTargets en (Some m) dbu = Inr ts" "t \<in> set ts"
  shows "\<exists>uid did p ks others d. (uid, did, (p, ks) # others) \<in> set (entries m)
           \<and> split_first p = OTK_ALGORITHM
           \<and> lookup_device dbu uid did = Some d
           \<and> verifyEd25519Signature en uid did (ed25519Key d) ks
           \<and> t = fromOTK d (key ks)"
proof -
  let ?F = "\<lambda>(uid, did, sec). otk_target en dbu uid did sec"
  from assms(1) obtain tss where pa: "promise_all (map ?F (entries m)) = Inr tss"
    and ts: "ts = concat tss"
    by (auto simp: verify_flat split: sum.splits)
  from promise_all_Inr[OF pa] have m: "map ?F (entries m) = map Inr tss" .
  from assms(2) ts obtain ts' where ts': "ts' \<in> set tss" "t \<in> set ts'" by auto
  then have "Inr ts' \<in> set (map ?F (entries m))" using m by simp
  then obtain uid did sec where e: "(uid, did, sec) \<in> set (entries m)"
    and o: "otk_target en dbu uid did sec = Inr ts'" by auto
  from otk_target_Inr[OF o ts'(2)] e show ?thesis by blast
qed

lemma devices_by_user_fold: "devices_by_user devices = foldl group_step [] devices"
  by (simp add: devices_by_user_def groupByWithCreator_def Let_def group_step_def[abs_def])

lemma lookup_step:
  "lookup_device (group_step m v) u i
   = (if u = userId v \<and> i = deviceId v then Some v else lookup_device m u i)"
  by (auto simp: group_step_def lookup_device_def update_conv' split: option.splits)

lemma find_snoc:
  "List.find P (xs @ [v]) =
     (case List.find P xs of Some d \<Rightarrow> Some d | None \<Rightarrow> if P v then Some v else None)"
  by (induction xs) auto

lemma lookup_fold:
  "lookup_device (foldl group_step m0 vs) u i
   = (case List.find (\<lambda>d. userId d = u \<and> deviceId d = i) (rev vs) of
        Some d \<Rightarrow> Some d
      | None \<Rightarrow> lookup_device m0 u i)"
proof (induction vs arbitrary: m0)
  case Nil then show ?case by simp
next
  case (Cons v vs)
  show ?case
    by (simp add: Cons.IH lookup_step find_snoc split: option.splits)
qed

lemma lookup_devices_by_user:
  "lookup_device (devices_by_user devices) u i
     = List.find (\<lambda>d. userId d = u \<and> deviceId d = i) (rev devices)"
proof -
  have "lookup_device [] u i = None" by (simp add: lookup_device_def)
  then show ?thesis
    unfolding devices_by_user_fold lookup_fold by (simp split: option.splits)
qed

lemma lookup_requested:
  assumes "lookup_device (devices_by_user devices) u i = Some d"
  shows "d \<in> set devices \<and> userId d = u \<and> deviceId d = i"
proof -
  from assms have f: "List.find (\<lambda>d. userId d = u \<and> deviceId d = i) (rev devices) = Some d"
    by (simp add: lookup_devices_by_user)
  then obtain k where "k < length (rev devices)" "d = rev devices ! k"
    "userId d = u \<and> deviceId d = i"
    by (auto simp: find_Some_iff)
  moreover from this have "d \<in> set (rev devices)" using nth_mem by blast
  ultimately show ?thesis by simp
qed

lemma create_loop_devices:
  "create_loop en ts done w = (w', ts', r) \<Longrightarrow> map device ts' = map device (done @ ts)"
proof (induction ts arbitrary: "done" w)
  case Nil then show ?case by simp
next
  case (Cons t ts)
  show ?case
  proof (cases "createOutboundOlmSession en (curve25519Key (device t)) (oneTimeKey t)")
    case (Inl e)
    with Cons.prems show ?thesis by auto
  next
    case (Inr sid)
    with Cons.prems Cons.IH show ?thesis
      by (fastforce simp: allocate_def split: prod.splits)
  qed
qed

lemma claimOneTimeKeys_response:
  assumes "hsApi (claim_payload (devices_by_user devices)) = Inr (Some r)"
    and "one_time_keys r = Some m"
  shows "claimOneTimeKeys en hsApi devices w
           = (emit (ClaimKeys (claim_payload (devices_by_user devices))) w,
              verifyAndCreateOTKTargets en (Some m) (devices_by_user devices))"
  using assms by (simp add: claimOneTimeKeys_def Let_def)

lemma claimOneTimeKeys_Inr:
  assumes "claimOneTimeKeys en hsApi devices w = (w1, Inr claimed)"
  shows "\<exists>m. verifyAndCreateOTKTargets en (Some m) (devices_by_user devices) = Inr claimed"
  using assms
  by (auto simp: claimOneTimeKeys_def Let_def verifyAndCreateOTKTargets_def
      split: sum.splits option.splits)

lemma createNewSessions_Inr:
  assumes "createNewSessions en devices hsApi timestamp w = (w', Inr ts)"
  shows "\<exists>m claimed. verifyAndCreateOTKTargets en (Some m) (devices_by_user devices) = Inr claimed
           \<and> map device ts = map device claimed"
proof -
  from assms obtain w1 claimed where c: "claimOneTimeKeys en hsApi devices w = (w1, Inr claimed)"
    by (auto simp: createNewSessions_def split: prod.splits sum.splits)
  obtain w2 ts' r where l: "create_loop en claimed [] w1 = (w2, ts', r)"
    by (cases "create_loop en claimed [] w1") auto
  from assms c l have "ts = ts'"
    by (auto simp: createNewSessions_def split: option.splits)
  with create_loop_devices[OF l] have "map device ts = map device claimed" by simp
  with claimOneTimeKeys_Inr[OF c] show ?thesis by blast
qed

lemma targets_requested:
  assumes "createNewSessions en devices hsApi timestamp w = (w', Inr ts)" "t \<in> set ts"
  shows "\<exists>m uid did p ks others. (uid, did, (p, ks) # others) \<in> set (entries m)
           \<and> split_first p = OTK_ALGORITHM
           \<and> lookup_device (devices_by_user devices) uid did = Some (device t)
           \<and> verifyEd25519Signature en uid did (ed25519Key (device t)) ks"
proof -
  from createNewSessions_Inr[OF assms(1)] obtain m claimed where
    v: "verifyAndCreateOTKTargets en (Some m) (devices_by_user devices) = Inr claimed"
    and d: "map device ts = map device claimed" by blast
  from assms(2) have "device t \<in> set (map device ts)" by simp
  with d obtain c where c: "c \<in> set claimed" "device c = device t" by auto
  from verify_targets[OF v c(1)] c(2) show ?thesis
    by (fastforce simp: fromOTK_def)
qed

lemma otk_target_first:
  "otk_target en dbu uid did (take (Suc 0) sec) = otk_target en dbu uid did sec"
  by (cases sec) (auto simp: otk_target_def)

lemma entries_first_keys_only:
  "entries (first_keys_only m) = map (\<lambda>(u, i, sec). (u, i, take 1 sec)) (entries m)"
  by (induction m) (auto simp: entries_def first_keys_only_def comp_def case_prod_unfold)

text \<open>
  C10. Every target that \<open>_createNewSessions\<close> returns, and so every session it
  establishes, belongs to a device of the batch it was asked about: a user id and device
  id of the response that no requested device has yields no target. The outcome of
  \<open>_verifyAndCreateOTKTargets\<close> is the same when every device section of the response
  is cut down to its first key.
\<close>

theorem response_cannot_add_devices:
  "(\<forall>w' ts. createNewSessions en devices hsApi timestamp w = (w', Inr ts) \<longrightarrow>
      (\<forall>t\<in>set ts. device t \<in> set devices
         \<and> (\<forall>uid did. (\<forall>d\<in>set devices. userId d = uid \<longrightarrow> deviceId d \<noteq> did) \<longrightarrow>
               \<not> (userId (device t) = uid \<and> deviceId (device t) = did))))
   \<and> verifyAndCreateOTKTargets en (Some m) dbu
       = verifyAndCreateOTKTargets en (Some (first_keys_only m)) dbu"
proof (intro conjI allI impI ballI)
  fix w' ts t
  assume c: "createNewSessions en devices hsApi timestamp w = (w', Inr ts)" and t: "t \<in> set ts"
  from targets_requested[OF c t] lookup_requested
  show r: "device t \<in> set devices" by blast
  fix uid did
  assume "\<forall>d\<in>set devices. userId d = uid \<longrightarrow> deviceId d \<noteq> did"
  with r show "\<not> (userId (device t) = uid \<and> deviceId (device t) = did)" by blast
next
  have "map (\<lambda>(uid, did, sec). otk_target en dbu uid did sec) (entries (first_keys_only m))
      = map (\<lambda>(uid, did, sec). otk_target en dbu uid did sec) (entries m)"
    by (simp add: entries_first_keys_only comp_def case_prod_unfold otk_target_first)
  then show "verifyAndCreateOTKTargets en (Some m) dbu
       = verifyAndCreateOTKTargets en (Some (first_keys_only m)) dbu"
    by (simp add: verify_flat)
qed

theorem response_cannot_add_devices_witness:
  "createNewSessions env0 [devN] hsApi0 1000 w0
     = (\<lparr>next_handle = 1,
         trace = [ClaimKeys (claim_payload (devices_by_user [devN])), Allocated 0, TxnComplete],
         durable = [((''curveN'', ''new for curveN''),
                     \<lparr>se_session = ''pickled'', se_sessionId = ''new for curveN'',
                      se_senderKey = ''curveN'', se_lastUsed = 1000\<rparr>)]\<rparr>,
        Inr [\<lparr>device = devN, oneTimeKey = Some ''otkN'', sessionId = None,
              session = Some \<lparr>handle = 0, session_id = ''new for curveN''\<rparr>\<rparr>])
   \<and> devN \<in> set [devN]
   \<and> \<not> (userId devN = ''@carol:hs'' \<and> deviceId devN = ''DEVM'')"
proof -
  let ?t = "\<lparr>device = devN, oneTimeKey = Some ''otkN'', sessionId = None,
              session = Some \<lparr>handle = 0, session_id = ''new for curveN''\<rparr>\<rparr>"
  let ?w = "\<lparr>next_handle = 1,
         trace = [ClaimKeys (claim_payload (devices_by_user [devN])), Allocated 0, TxnComplete],
         durable = [((''curveN'', ''new for curveN''),
                     \<lparr>se_session = ''pickled'', se_sessionId = ''new for curveN'',
                      se_senderKey = ''curveN'', se_lastUsed = 1000\<rparr>)]\<rparr>"
  have c: "createNewSessions env0 [devN] hsApi0 1000 w0 = (?w, Inr [?t])"
    by (simp add: model_defs sample_defs)
  have t: "?t \<in> set [?t]" by simp
  have u: "\<forall>d\<in>set [devN]. userId d = ''@carol:hs'' \<longrightarrow> deviceId d \<noteq> ''DEVM''"
    by (simp add: devN_def)
  from response_cannot_add_devices[of env0 "[devN]" hsApi0 1000 w0] c t u
  have "device ?t \<in> set [devN]
        \<and> \<not> (userId (device ?t) = ''@carol:hs'' \<and> deviceId (device ?t) = ''DEVM'')"
    by blast
  with c show ?thesis by simp
qed

section \<open>Rejected one-time keys\<close>

lemma encrypt_callback_raises: "encrypt_callback en typ target = Inl ReferenceError"
  by (simp add: encrypt_callback_def read_binding_def)

lemma callbacks_raise:
  "promise_all (map (encrypt_callback en typ) ts) = (if ts = [] then Inr [] else Inl ReferenceError)"
  by (cases ts) (simp_all add: encrypt_callback_raises)

lemma encrypt_no_messages:
  assumes "encrypt en typ cont devices hsApi w = (w', Inr msgs)"
  shows "msgs = []"
  using assms
  by (auto simp: encrypt_def Let_def callbacks_raise simp del: map_append
      split: sum.splits prod.splits if_splits)

lemma entries_drop_entries:
  "entries (drop_entries uid did m)
     = filter (\<lambda>(u, i, sec). \<not> (u = uid \<and> i = did)) (entries m)"
  by (induction m)
     (auto simp: entries_def drop_entries_def filter_map comp_def case_prod_unfold)

lemma promise_all_filter:
  assumes "\<forall>x\<in>set xs. \<not> P x \<longrightarrow> f x = Inr []"
  shows "(case promise_all (map f (filter P xs)) of Inl e \<Rightarrow> Inl e | Inr tss \<Rightarrow> Inr (concat tss))
       = (case promise_all (map f xs) of Inl e \<Rightarrow> Inl e | Inr tss \<Rightarrow> Inr (concat tss))"
  using assms
proof (induction xs)
  case Nil then show ?case by simp
next
  case (Cons x xs)
  then have ih: "(case promise_all (map f (filter P xs)) of Inl e \<Rightarrow> Inl e | Inr tss \<Rightarrow> Inr (concat tss))
       = (case promise_all (map f xs) of Inl e \<Rightarrow> Inl e | Inr tss \<Rightarrow> Inr (concat tss))"
    by simp
  show ?case
  proof (cases "P x")
    case True
    then show ?thesis using ih by (cases "f x") (auto split: sum.splits)
  next
    case False
    with Cons.prems have "f x = Inr []" by simp
    then show ?thesis using ih False by (auto split: sum.splits)
  qed
qed

lemma rejected_no_target:
  assumes "rejected_key en d sec"
    and "lookup_device dbu (userId d) (deviceId d) = Some d \<or> lookup_device dbu (userId d) (deviceId d) = None"
  shows "otk_target en dbu (userId d) (deviceId d) sec = Inr []"
  using assms
  by (auto simp: rejected_key_def otk_target_def Let_def split: list.splits option.splits)

text \<open>
  C6. Take a device whose section of the key-claim response has a first key that
  declares an algorithm other than \<open>signed_curve25519\<close> or does not verify against the
  device's own ed25519 key. Then no target that \<open>_createNewSessions\<close> returns is for that
  device, so no session is created for it; handling its section raises nothing and
  yields no target; and no message of \<open>encrypt\<close> is for the device. When the device is
  in the batch and is the only one there with its user id and device id,
  \<open>_createNewSessions\<close> does exactly what it does on the response without that section.
\<close>

theorem rejected_key_drops_device:
  assumes "hsApi (claim_payload (devices_by_user devices)) = Inr (Some r)"
    and "one_time_keys r = Some m"
    and "\<forall>sec. (userId d, deviceId d, sec) \<in> set (entries m) \<longrightarrow> rejected_key en d sec"
  shows "(\<forall>w' ts. createNewSessions en devices hsApi timestamp w = (w', Inr ts) \<longrightarrow>
            (\<forall>t\<in>set ts. device t \<noteq> d))
       \<and> (\<forall>sec. (userId d, deviceId d, sec) \<in> set (entries m) \<longrightarrow>
            (\<exists>ts. otk_target en (devices_by_user devices) (userId d) (deviceId d) sec = Inr ts
                  \<and> (\<forall>t\<in>set ts. device t \<noteq> d)))
       \<and> (\<forall>w' msgs. encrypt en typ cont devices hsApi w = (w', Inr msgs) \<longrightarrow>
            (\<forall>msg\<in>set msgs. em_device msg \<noteq> d))
       \<and> (d \<in> set devices
          \<and> (\<forall>d'\<in>set devices. userId d' = userId d \<and> deviceId d' = deviceId d \<longrightarrow> d' = d)
          \<longrightarrow> createNewSessions en devices hsApi timestamp w
              = createNewSessions en devices
                  (\<lambda>payload. Inr (Some \<lparr>one_time_keys =
                                          Some (drop_entries (userId d) (deviceId d) m)\<rparr>))
                  timestamp w)"
proof (intro conjI allI impI ballI)
  fix w' ts t
  assume c: "createNewSessions en devices hsApi timestamp w = (w', Inr ts)" and t: "t \<in> set ts"
  show "device t \<noteq> d"
  proof
    assume dt: "device t = d"
    have cl: "claimOneTimeKeys en hsApi devices w
           = (emit (ClaimKeys (claim_payload (devices_by_user devices))) w,
              verifyAndCreateOTKTargets en (Some m) (devices_by_user devices))"
      using assms(1,2)
      by (rule claimOneTimeKeys_response[where hsApi = hsApi and devices = devices])
    from c cl obtain claimed where
      v: "verifyAndCreateOTKTargets en (Some m) (devices_by_user devices) = Inr claimed"
      by (auto simp: createNewSessions_def split: sum.splits)
    obtain w2 ts' x where l: "create_loop en claimed []
        (emit (ClaimKeys (claim_payload (devices_by_user devices))) w) = (w2, ts', x)"
      using prod_cases3 by blast
    from c cl v l have "ts = ts'"
      by (auto simp: createNewSessions_def split: option.splits)
    with create_loop_devices[OF l] have "map device ts = map device claimed" by simp
    moreover from t have "device t \<in> set (map device ts)" by simp
    ultimately obtain c' where c': "c' \<in> set claimed" "device c' = device t" by auto
    from verify_targets[OF v c'(1)] obtain uid did p ks others d' where
      e: "(uid, did, (p, ks) # others) \<in> set (entries m)"
      and a: "split_first p = OTK_ALGORITHM"
      and lk: "lookup_device (devices_by_user devices) uid did = Some d'"
      and ve: "verifyEd25519Signature en uid did (ed25519Key d') ks"
      and c'eq: "c' = fromOTK d' (key ks)" by blast
    from c'eq c'(2) dt have "d' = d" by (simp add: fromOTK_def)
    with lookup_requested[OF lk] have ids: "uid = userId d" "did = deviceId d" by auto
    with e assms(3) have "rejected_key en d ((p, ks) # others)" by blast
    with a ve ids \<open>d' = d\<close> show False by (simp add: rejected_key_def)
  qed
next
  fix sec
  assume "(userId d, deviceId d, sec) \<in> set (entries m)"
  with assms(3) have r: "rejected_key en d sec" by blast
  then obtain p ks others where sec: "sec = (p, ks) # others"
    by (cases sec) (auto simp: rejected_key_def)
  obtain ts where o: "otk_target en (devices_by_user devices) (userId d) (deviceId d) sec = Inr ts"
    by (cases "otk_target en (devices_by_user devices) (userId d) (deviceId d) sec")
       (auto simp: otk_target_def Let_def sec split: option.splits if_splits)
  have "\<forall>t\<in>set ts. device t \<noteq> d"
  proof
    fix t assume "t \<in> set ts"
    from otk_target_Inr[OF o this] r show "device t \<noteq> d"
      by (auto simp: rejected_key_def fromOTK_def)
  qed
  with o show "\<exists>ts. otk_target en (devices_by_user devices) (userId d) (deviceId d) sec = Inr ts
                  \<and> (\<forall>t\<in>set ts. device t \<noteq> d)" by blast
next
  fix w' msgs msg
  assume "encrypt en typ cont devices hsApi w = (w', Inr msgs)" "msg \<in> set msgs"
  with encrypt_no_messages show "em_device msg \<noteq> d" by fastforce
next
  assume u: "d \<in> set devices
          \<and> (\<forall>d'\<in>set devices. userId d' = userId d \<and> deviceId d' = deviceId d \<longrightarrow> d' = d)"
  let ?dbu = "devices_by_user devices"
  let ?F = "\<lambda>(uid, did, sec). otk_target en ?dbu uid did sec"
  let ?P = "\<lambda>(u, i, sec). \<not> (u = userId d \<and> i = deviceId d)"
  have lk: "lookup_device ?dbu (userId d) (deviceId d) = Some d"
  proof (cases "lookup_device ?dbu (userId d) (deviceId d)")
    case None
    then have "List.find (\<lambda>x. userId x = userId d \<and> deviceId x = deviceId d) (rev devices) = None"
      by (simp add: lookup_devices_by_user)
    with u show ?thesis by (auto simp: find_None_iff)
  next
    case (Some d')
    from lookup_requested[OF Some] u show ?thesis using Some by auto
  qed
  have "\<forall>x\<in>set (entries m). \<not> ?P x \<longrightarrow> ?F x = Inr []"
    using assms(3) lk by (auto intro: rejected_no_target)
  from promise_all_filter[OF this]
  have v: "verifyAndCreateOTKTargets en (Some (drop_entries (userId d) (deviceId d) m)) ?dbu
         = verifyAndCreateOTKTargets en (Some m) ?dbu"
    by (simp add: verify_flat entries_drop_entries)
  have 1: "claimOneTimeKeys en hsApi devices w
           = (emit (ClaimKeys (claim_payload ?dbu)) w,
              verifyAndCreateOTKTargets en (Some m) ?dbu)"
    using assms(1,2)
    by (rule claimOneTimeKeys_response[where hsApi = hsApi and devices = devices])
  have 2: "claimOneTimeKeys en
               (\<lambda>payload. Inr (Some \<lparr>one_time_keys =
                                       Some (drop_entries (userId d) (deviceId d) m)\<rparr>))
               devices w
           = (emit (ClaimKeys (claim_payload ?dbu)) w,
              verifyAndCreateOTKTargets en (Some (drop_entries (userId d) (deviceId d) m)) ?dbu)"
    by (simp add: claimOneTimeKeys_def Let_def)
  show "createNewSessions en devices hsApi timestamp w
           = createNewSessions en devices
               (\<lambda>payload. Inr (Some \<lparr>one_time_keys =
                                       Some (drop_entries (userId d) (deviceId d) m)\<rparr>))
               timestamp w"
    by (simp add: createNewSessions_def 1 2 v)
qed

theorem rejected_key_drops_device_witness:
  "hsApi_rejected (claim_payload (devices_by_user [devN, devM]))
     = Inr (Some \<lparr>one_time_keys = Some rejected_map\<rparr>)
   \<and> rejected_key env0 devN [(''curve25519:AAAA'',
                                \<lparr>key = ''otkN'', signatures = JStr ''signed by edN''\<rparr>)]
   \<and> rejected_key env0 devM [(''signed_curve25519:AAAB'',
                                \<lparr>key = ''otkM'', signatures = JStr ''signed by edX''\<rparr>)]
   \<and> createNewSessions env0 [devN, devM] hsApi_rejected 1000 w0
       = (\<lparr>next_handle = 0,
           trace = [ClaimKeys (claim_payload (devices_by_user [devN, devM])), TxnComplete],
           durable = []\<rparr>, Inr [])
   \<and> createNewSessions env0 [devN, devM]
         (\<lambda>payload. Inr (Some \<lparr>one_time_keys = Some (drop_entries ''@carol:hs'' ''DEVN'' rejected_map)\<rparr>))
         1000 w0
       = (\<lparr>next_handle = 0,
           trace = [ClaimKeys (claim_payload (devices_by_user [devN, devM])), TxnComplete],
           durable = []\<rparr>, Inr [])
   \<and> createNewSessions env0 [devN, devM]
         (\<lambda>payload. Inr (Some \<lparr>one_time_keys = Some (drop_entries ''@carol:hs'' ''DEVM'' rejected_map)\<rparr>))
         1000 w0
       = (\<lparr>next_handle = 0,
           trace = [ClaimKeys (claim_payload (devices_by_user [devN, devM])), TxnComplete],
           durable = []\<rparr>, Inr [])"
proof -
  let ?devices = "[devN, devM]"
  have h1: "hsApi_rejected (claim_payload (devices_by_user ?devices))
     = Inr (Some \<lparr>one_time_keys = Some rejected_map\<rparr>)"
    by (simp add: hsApi_rejected_def)
  have h2: "one_time_keys \<lparr>one_time_keys = Some rejected_map\<rparr> = Some rejected_map" by simp
  have e: "entries rejected_map =
      [(''@carol:hs'', ''DEVN'', [(''curve25519:AAAA'',
                        \<lparr>key = ''otkN'', signatures = JStr ''signed by edN''\<rparr>)]),
       (''@carol:hs'', ''DEVM'', [(''signed_curve25519:AAAB'',
                        \<lparr>key = ''otkM'', signatures = JStr ''signed by edX''\<rparr>)])]"
    by (simp add: entries_def rejected_map_def)
  have rN: "rejected_key env0 devN [(''curve25519:AAAA'',
                                \<lparr>key = ''otkN'', signatures = JStr ''signed by edN''\<rparr>)]"
    by (simp add: rejected_key_def split_first_def OTK_ALGORITHM_def)
  have rM: "rejected_key env0 devM [(''signed_curve25519:AAAB'',
                                \<lparr>key = ''otkM'', signatures = JStr ''signed by edX''\<rparr>)]"
    by (simp add: rejected_key_def split_first_def OTK_ALGORITHM_def env0_def devM_def)
  have h3N: "\<forall>sec. (userId devN, deviceId devN, sec) \<in> set (entries rejected_map)
               \<longrightarrow> rejected_key env0 devN sec"
    using rN by (auto simp: e devN_def)
  have h3M: "\<forall>sec. (userId devM, deviceId devM, sec) \<in> set (entries rejected_map)
               \<longrightarrow> rejected_key env0 devM sec"
    using rM by (auto simp: e devM_def)
  have h4N: "devN \<in> set ?devices" and h4M: "devM \<in> set ?devices" by simp_all
  have h5N: "\<forall>d'\<in>set ?devices. userId d' = userId devN \<and> deviceId d' = deviceId devN \<longrightarrow> d' = devN"
    by (simp add: devN_def devM_def)
  have h5M: "\<forall>d'\<in>set ?devices. userId d' = userId devM \<and> deviceId d' = deviceId devM \<longrightarrow> d' = devM"
    by (simp add: devN_def devM_def)
  have c: "createNewSessions env0 ?devices hsApi_rejected 1000 w0
       = (\<lparr>next_handle = 0,
           trace = [ClaimKeys (claim_payload (devices_by_user ?devices)), TxnComplete],
           durable = []\<rparr>, Inr [])"
    by (simp add: model_defs sample_defs hsApi_rejected_def rejected_map_def)
  note thN = rejected_key_drops_device[where hsApi = hsApi_rejected and devices = ?devices
      and en = env0 and d = devN and timestamp = 1000 and w = w0, OF h1 h2 h3N]
  note thM = rejected_key_drops_device[where hsApi = hsApi_rejected and devices = ?devices
      and en = env0 and d = devM and timestamp = 1000 and w = w0, OF h1 h2 h3M]
  have uN: "userId devN = ''@carol:hs''" "deviceId devN = ''DEVN''" by (simp_all add: devN_def)
  have uM: "userId devM = ''@carol:hs''" "deviceId devM = ''DEVM''" by (simp_all add: devM_def)
  from thN have 1: "createNewSessions env0 ?devices hsApi_rejected 1000 w0
       = createNewSessions env0 ?devices
         (\<lambda>payload. Inr (Some \<lparr>one_time_keys = Some (drop_entries ''@carol:hs'' ''DEVN'' rejected_map)\<rparr>))
         1000 w0" using h4N h5N unfolding uN by blast
  from thM have 2: "createNewSessions env0 ?devices hsApi_rejected 1000 w0
       = createNewSessions env0 ?devices
         (\<lambda>payload. Inr (Some \<lparr>one_time_keys = Some (drop_entries ''@carol:hs'' ''DEVM'' rejected_map)\<rparr>))
         1000 w0" using h4M h5M unfolding uM by blast
  from h1 rN rM c 1 2 show ?thesis by simp
qed

section \<open>The key-claim request\<close>

lemma set_update_subset: "set (AList.update k v al) \<subseteq> insert (k, v) (set al)"
  by (induction al) auto

lemma fold_set_distinct:
  "distinct (map fst acc) \<Longrightarrow>
     distinct (map fst (foldl (\<lambda>acc x. obj_set (kf x) (g x) acc) acc xs))"
  by (induction xs arbitrary: acc) (simp_all add: obj_set_def distinct_update)

lemma fold_set_keys:
  "fst ` set (foldl (\<lambda>acc x. obj_set (kf x) (g x) acc) acc xs)
     = fst ` set acc \<union> (kf ` set xs - {''__proto__''})"
  by (induction xs arbitrary: acc) (auto simp: obj_set_def dom_update)

lemma fold_set_entries:
  "(k, v) \<in> set (foldl (\<lambda>acc x. obj_set (kf x) (g x) acc) acc xs) \<Longrightarrow>
     (k, v) \<in> set acc \<or> (\<exists>x\<in>set xs. kf x = k \<and> g x = v)"
proof (induction xs arbitrary: acc)
  case Nil then show ?case by simp
next
  case (Cons x xs)
  from Cons.IH[of "obj_set (kf x) (g x) acc"] Cons.prems
  have "(k, v) \<in> set (obj_set (kf x) (g x) acc) \<or> (\<exists>x\<in>set xs. kf x = k \<and> g x = v)"
    by simp
  with set_update_subset[of "kf x" "g x" acc] show ?case
    by (auto simp: obj_set_def split: if_splits)
qed

lemma group_step_entries:
  assumes "(uid, dm) \<in> set (group_step m v)" "(did, d) \<in> set dm"
  shows "(did, d) = (deviceId v, v) \<and> uid = userId v
       \<or> (\<exists>dm'. (uid, dm') \<in> set m \<and> (did, d) \<in> set dm')"
proof -
  let ?coll = "case map_of m (userId v) of None \<Rightarrow> [] | Some c \<Rightarrow> c"
  from assms(1) set_update_subset[of "userId v" "AList.update (deviceId v) v ?coll" m]
  consider "uid = userId v" "dm = AList.update (deviceId v) v ?coll" | "(uid, dm) \<in> set m"
    by (auto simp: group_step_def)
  then show ?thesis
  proof cases
    case 1
    with assms(2) set_update_subset[of "deviceId v" v ?coll]
    have "(did, d) = (deviceId v, v) \<or> (did, d) \<in> set ?coll" by auto
    then show ?thesis
    proof
      assume "(did, d) = (deviceId v, v)" with 1 show ?thesis by simp
    next
      assume c: "(did, d) \<in> set ?coll"
      then obtain c' where "map_of m (userId v) = Some c'" "(did, d) \<in> set c'"
        by (cases "map_of m (userId v)") auto
      with 1 show ?thesis by (auto dest: map_of_SomeD)
    qed
  next
    case 2
    with assms(2) show ?thesis by blast
  qed
qed

lemma grouped_entries_fold:
  assumes "\<forall>uid dm did d. (uid, dm) \<in> set m0 \<and> (did, d) \<in> set dm
             \<longrightarrow> d \<in> S \<and> userId d = uid \<and> deviceId d = did"
    and "set vs \<subseteq> S"
    and "(uid, dm) \<in> set (foldl group_step m0 vs)" "(did, d) \<in> set dm"
  shows "d \<in> S \<and> userId d = uid \<and> deviceId d = did"
  using assms
proof (induction vs arbitrary: m0)
  case Nil then show ?case by auto
next
  case (Cons v vs)
  have inv: "\<forall>uid dm did d. (uid, dm) \<in> set (group_step m0 v) \<and> (did, d) \<in> set dm
             \<longrightarrow> d \<in> S \<and> userId d = uid \<and> deviceId d = did"
  proof (intro allI impI)
    fix uid dm did d
    assume a: "(uid, dm) \<in> set (group_step m0 v) \<and> (did, d) \<in> set dm"
    from group_step_entries[of uid dm m0 v did d] a Cons.prems(1,2)
    show "d \<in> S \<and> userId d = uid \<and> deviceId d = did" by auto
  qed
  from Cons.prems(2) have "set vs \<subseteq> S" by simp
  from Cons.IH[OF inv this] Cons.prems(3,4) show ?case by simp
qed

lemma grouped_entries:
  assumes "(uid, dm) \<in> set (devices_by_user devices)" "(did, d) \<in> set dm"
  shows "d \<in> set devices \<and> userId d = uid \<and> deviceId d = did"
  using grouped_entries_fold[of "[]" "set devices" devices uid dm did d] assms
  by (simp add: devices_by_user_fold)

lemma grouped_distinct: "distinct (map fst (devices_by_user devices))"
proof -
  have "\<And>m0. distinct (map fst m0) \<Longrightarrow> distinct (map fst (foldl group_step m0 devices))"
    by (induction devices) (simp_all add: group_step_def distinct_update)
  from this[of "[]"] show ?thesis by (simp add: devices_by_user_fold)
qed

lemma grouped_present:
  assumes "d \<in> set devices"
  shows "\<exists>dm d'. (userId d, dm) \<in> set (devices_by_user devices) \<and> (deviceId d, d') \<in> set dm"
proof -
  have "List.find (\<lambda>x. userId x = userId d \<and> deviceId x = deviceId d) (rev devices) \<noteq> None"
    using assms by (auto simp: find_None_iff)
  then obtain d' where "lookup_device (devices_by_user devices) (userId d) (deviceId d) = Some d'"
    by (auto simp: lookup_devices_by_user)
  then show ?thesis
    by (auto simp: lookup_device_def split: option.splits dest: map_of_SomeD)
qed


lemma claim_payload_objs:
  "claim_payload dbu = JObj [(''timeout'', JNum 10000), (''one_time_keys'', JObj (users_obj dbu))]"
  by (simp add: claim_payload_def users_obj_def devices_obj_def[abs_def] case_prod_unfold)

lemma devices_obj_facts:
  "distinct (map fst (devices_obj dm))"
  "fst ` set (devices_obj dm) = (\<lambda>y. deviceId (snd y)) ` set dm - {''__proto__''}"
  "k \<in> fst ` set (devices_obj dm) \<Longrightarrow> map_of (devices_obj dm) k = Some (JStr OTK_ALGORITHM)"
proof -
  show d: "distinct (map fst (devices_obj dm))"
    unfolding devices_obj_def by (rule fold_set_distinct) simp
  show "fst ` set (devices_obj dm) = (\<lambda>y. deviceId (snd y)) ` set dm - {''__proto__''}"
    unfolding devices_obj_def by (simp add: fold_set_keys)
  assume "k \<in> fst ` set (devices_obj dm)"
  then obtain v where v: "(k, v) \<in> set (devices_obj dm)" by auto
  then have "v = JStr OTK_ALGORITHM"
    unfolding devices_obj_def by (auto dest: fold_set_entries)
  with v d show "map_of (devices_obj dm) k = Some (JStr OTK_ALGORITHM)" by simp
qed

lemma users_obj_facts:
  "distinct (map fst (users_obj dbu))"
  "fst ` set (users_obj dbu) = fst ` set dbu - {''__proto__''}"
  "(uid, v) \<in> set (users_obj dbu) \<Longrightarrow> \<exists>dm. (uid, dm) \<in> set dbu \<and> v = JObj (devices_obj dm)"
proof -
  show "distinct (map fst (users_obj dbu))"
    unfolding users_obj_def by (rule fold_set_distinct) simp
  show "fst ` set (users_obj dbu) = fst ` set dbu - {''__proto__''}"
    unfolding users_obj_def by (simp add: fold_set_keys)
  assume "(uid, v) \<in> set (users_obj dbu)"
  then have "\<exists>x\<in>set dbu. fst x = uid \<and> JObj (devices_obj (snd x)) = v"
    unfolding users_obj_def by (auto dest: fold_set_entries)
  then show "\<exists>dm. (uid, dm) \<in> set dbu \<and> v = JObj (devices_obj dm)" by force
qed

lemma claimOneTimeKeys_trace:
  "trace (fst (claimOneTimeKeys en hsApi devices w))
     = trace w @ [ClaimKeys (claim_payload (devices_by_user devices))]"
  by (simp add: claimOneTimeKeys_def Let_def emit_def split: sum.splits)

lemma claim_requests_emit:
  "claim_requests (emit e w) = claim_requests w @ (if is_claim e then [e] else [])"
  by (simp add: claim_requests_def emit_def)

lemma claim_requests_dispose_all: "claim_requests (dispose_all ts w) = claim_requests w"
  by (simp add: claim_requests_def dispose_all_world filter_map comp_def)

lemma claim_requests_allocate: "claim_requests (snd (allocate w)) = claim_requests w"
  by (simp add: allocate_def claim_requests_def emit_def)

lemma claim_requests_create_loop:
  "create_loop en ts done w = (w', ts', r) \<Longrightarrow> claim_requests w' = claim_requests w"
proof (induction ts arbitrary: "done" w)
  case Nil then show ?case by simp
next
  case (Cons t ts)
  show ?case
  proof (cases "createOutboundOlmSession en (curve25519Key (device t)) (oneTimeKey t)")
    case (Inl e)
    with Cons.prems show ?thesis by simp
  next
    case (Inr sid)
    obtain h w1 where a: "allocate w = (h, w1)" by (cases "allocate w")
    with Cons.prems Inr have "create_loop en ts
        (done @ [t\<lparr>session := Some \<lparr>handle = h, session_id = sid\<rparr>\<rparr>]) w1 = (w', ts', r)"
      by simp
    from Cons.IH[OF this] claim_requests_allocate[of w] a show ?thesis by simp
  qed
qed

lemma claim_requests_store:
  "claim_requests (fst (storeSessions en ts timestamp w)) = claim_requests w"
  by (simp add: storeSessions_def claim_requests_def emit_def split: sum.splits option.splits)

lemma claim_requests_stored:
  "storeSessions en ts timestamp w = (w', r) \<Longrightarrow> claim_requests w' = claim_requests w"
  using claim_requests_store[of en ts timestamp w] by simp

lemma claim_requests_settle_one:
  "settle_one en i ts failed w = (w1, ts1, thrown) \<Longrightarrow> claim_requests w1 = claim_requests w"
  by (auto simp: settle_one_def Let_def allocate_def claim_requests_def emit_def
      split: if_splits sum.splits option.splits)

lemma claim_requests_settle_loop:
  "settle_loop en order ts rejected failed pending w = (w', l, f)
     \<Longrightarrow> claim_requests w' = claim_requests w"
proof (induction order arbitrary: ts rejected failed pending w)
  case Nil
  then show ?case by (auto simp: claim_requests_dispose_all split: option.splits)
next
  case (Cons i later)
  obtain w1 ts1 thrown where s: "settle_one en i ts failed w = (w1, ts1, thrown)"
    using prod_cases3 by blast
  note w1 = claim_requests_settle_one[OF s]
  from Cons.prems s show ?case
    by (auto simp: Let_def w1[symmetric] claim_requests_dispose_all
        split: if_splits dest!: Cons.IH)
qed

lemma claim_requests_createNewSessions:
  "claim_requests (fst (createNewSessions en devs hsApi timestamp w))
     = claim_requests w @ [ClaimKeys (claim_payload (devices_by_user devs))]"
proof -
  let ?wc = "emit (ClaimKeys (claim_payload (devices_by_user devs))) w"
  obtain r where c: "claimOneTimeKeys en hsApi devs w = (?wc, r)"
    using claimOneTimeKeys_world[of en hsApi devs w]
    by (cases "claimOneTimeKeys en hsApi devs w") auto
  have wc: "claim_requests ?wc = claim_requests w @ [ClaimKeys (claim_payload (devices_by_user devs))]"
    by (simp add: claim_requests_emit)
  show ?thesis
  proof (cases r)
    case (Inl e)
    with c wc show ?thesis by (simp add: createNewSessions_def)
  next
    case (Inr claimed)
    obtain w2 ts' x where l: "create_loop en claimed [] ?wc = (w2, ts', x)"
      using prod_cases3 by blast
    from claim_requests_create_loop[OF l] wc
    have "claim_requests w2 = claim_requests w @ [ClaimKeys (claim_payload (devices_by_user devs))]"
      by simp
    with c Inr l show ?thesis
      by (cases x)
         (simp_all add: createNewSessions_def claim_requests_store claim_requests_dispose_all)
  qed
qed

lemma claim_requests_encrypt:
  assumes "findExistingSessions en devices = Inr (without, existing)"
  shows "claim_requests (fst (encrypt en typ cont devices hsApi w))
     = claim_requests w
       @ (if without = [] then [] else [ClaimKeys (claim_payload (devices_by_user without))])"
proof -
  define cw where "cw = (if without \<noteq> [] then createNewSessions en without hsApi (now en) w
                         else (w, Inr []))"
  have c: "claim_requests (fst cw) = claim_requests w
       @ (if without = [] then [] else [ClaimKeys (claim_payload (devices_by_user without))])"
    by (simp add: cw_def claim_requests_createNewSessions)
  obtain w1 r1 where cw1: "cw = (w1, r1)" by (cases cw)
  show ?thesis
  proof (cases r1)
    case (Inl e)
    with assms cw1 c show ?thesis
      by (simp add: encrypt_def Let_def cw_def[symmetric])
  next
    case (Inr new)
    obtain w2 r2 where ls: "loadSessions en existing w1 = (w2, r2)"
      by (cases "loadSessions en existing w1")
    obtain wl l f where ll: "settle_loop en
        (settle_order (length existing) (load_order en (length existing)))
        existing None False None w1 = (wl, l, f)"
      using prod_cases3 by blast
    from ls ll have "w2 = wl" by (auto simp: loadSessions_def split: option.splits)
    with claim_requests_settle_loop[OF ll] have w2: "claim_requests w2 = claim_requests w1" by simp
    from assms cw1 Inr ls c w2 show ?thesis
      by (cases r2)
         (auto simp: encrypt_def Let_def cw_def[symmetric] claim_requests_dispose_all
            split: sum.splits prod.splits dest!: claim_requests_stored)
  qed
qed

text \<open>
  C9, as amended. \<open>_claimOneTimeKeys\<close> issues exactly one key-claim request. Its payload
  is the object with the two properties \<open>timeout\<close>, which is 10000 (milliseconds), and
  \<open>one_time_keys\<close>; under \<open>one_time_keys\<close> every user id appears once, under a user id
  every device id appears once, every pair of user id and device id of the input devices
  in which neither id is \<open>__proto__\<close> is mapped to \<open>signed_curve25519\<close>, and every pair
  that is there is the pair of an input device. A call of \<open>encrypt\<close> whose session
  lookup succeeds issues this request exactly once, for the devices without a session,
  when there is such a device, and no request otherwise.
\<close>

theorem claim_request_shape:
  "trace (fst (claimOneTimeKeys en hsApi devices w))
     = trace w @ [ClaimKeys (claim_payload (devices_by_user devices))]
   \<and> json_keys (claim_payload (devices_by_user devices)) = [''timeout'', ''one_time_keys'']
   \<and> json_get (claim_payload (devices_by_user devices)) ''timeout'' = Some (JNum 10000)
   \<and> (\<exists>otks. json_get (claim_payload (devices_by_user devices)) ''one_time_keys'' = Some otks
         \<and> distinct (json_keys otks)
         \<and> (\<forall>d\<in>set devices. userId d \<noteq> ''__proto__'' \<and> deviceId d \<noteq> ''__proto__'' \<longrightarrow>
              (\<exists>devs.
                json_get otks (userId d) = Some devs
              \<and> distinct (json_keys devs)
              \<and> json_get devs (deviceId d) = Some (JStr ''signed_curve25519'')))
         \<and> (\<forall>uid\<in>set (json_keys otks). \<exists>devs.
                json_get otks uid = Some devs
              \<and> (\<forall>did\<in>set (json_keys devs).
                    json_get devs did = Some (JStr ''signed_curve25519'')
                  \<and> (\<exists>d\<in>set devices. userId d = uid \<and> deviceId d = did))))
   \<and> (\<forall>all_devices without existing wi.
         findExistingSessions en all_devices = Inr (without, existing) \<longrightarrow>
         claim_requests (fst (encrypt en typ cont all_devices hsApi wi))
           = claim_requests wi
             @ (if without = [] then []
                else [ClaimKeys (claim_payload (devices_by_user without))]))"
proof -
  let ?dbu = "devices_by_user devices"
  let ?otks = "JObj (users_obj ?dbu)"
  have otk: "OTK_ALGORITHM = ''signed_curve25519''" by (simp add: OTK_ALGORITHM_def)
  have g: "json_get (claim_payload ?dbu) ''one_time_keys'' = Some ?otks"
    by (simp add: claim_payload_objs)
  have dk: "distinct (json_keys ?otks)" by (simp add: users_obj_facts(1))
  have user: "\<And>uid dm. (uid, dm) \<in> set ?dbu \<Longrightarrow> uid \<noteq> ''__proto__'' \<Longrightarrow>
                 json_get ?otks uid = Some (JObj (devices_obj dm))"
  proof -
    fix uid dm assume m: "(uid, dm) \<in> set ?dbu" and np: "uid \<noteq> ''__proto__''"
    then have "uid \<in> fst ` set (users_obj ?dbu)" by (force simp: users_obj_facts(2))
    then obtain v where v: "(uid, v) \<in> set (users_obj ?dbu)" by auto
    from users_obj_facts(3)[OF v] obtain dm' where
      dm': "(uid, dm') \<in> set ?dbu" "v = JObj (devices_obj dm')" by blast
    from grouped_distinct[of devices] m dm'(1) have "dm' = dm"
      by (meson eq_key_imp_eq_value)
    with v dm'(2) users_obj_facts(1)[of ?dbu]
    show "json_get ?otks uid = Some (JObj (devices_obj dm))" by simp
  qed
  have req: "\<forall>d\<in>set devices. userId d \<noteq> ''__proto__'' \<and> deviceId d \<noteq> ''__proto__'' \<longrightarrow>
              (\<exists>devs.
                json_get ?otks (userId d) = Some devs
              \<and> distinct (json_keys devs)
              \<and> json_get devs (deviceId d) = Some (JStr ''signed_curve25519''))"
  proof (intro ballI impI)
    fix d assume "d \<in> set devices"
      and np: "userId d \<noteq> ''__proto__'' \<and> deviceId d \<noteq> ''__proto__''"
    from grouped_present[OF this(1)] obtain dm d' where
      m: "(userId d, dm) \<in> set ?dbu" and e: "(deviceId d, d') \<in> set dm" by blast
    from grouped_entries[OF m e] have "deviceId d' = deviceId d" by simp
    with e np have "deviceId d \<in> fst ` set (devices_obj dm)"
      by (force simp: devices_obj_facts(2))
    from devices_obj_facts(3)[OF this] devices_obj_facts(1)[of dm] user[OF m] np
    show "\<exists>devs. json_get ?otks (userId d) = Some devs
              \<and> distinct (json_keys devs)
              \<and> json_get devs (deviceId d) = Some (JStr ''signed_curve25519'')"
      by (simp add: otk)
  qed
  have only: "\<forall>uid\<in>set (json_keys ?otks). \<exists>devs.
                json_get ?otks uid = Some devs
              \<and> (\<forall>did\<in>set (json_keys devs).
                    json_get devs did = Some (JStr ''signed_curve25519'')
                  \<and> (\<exists>d\<in>set devices. userId d = uid \<and> deviceId d = did))"
  proof
    fix uid assume "uid \<in> set (json_keys ?otks)"
    then have "uid \<in> fst ` set ?dbu" and np: "uid \<noteq> ''__proto__''"
      by (simp_all add: users_obj_facts(2))
    then obtain dm where m: "(uid, dm) \<in> set ?dbu" by auto
    have "\<forall>did\<in>set (json_keys (JObj (devices_obj dm))).
            json_get (JObj (devices_obj dm)) did = Some (JStr ''signed_curve25519'')
          \<and> (\<exists>d\<in>set devices. userId d = uid \<and> deviceId d = did)"
    proof
      fix did assume "did \<in> set (json_keys (JObj (devices_obj dm)))"
      then have k: "did \<in> fst ` set (devices_obj dm)" by simp
      then obtain y where y: "y \<in> set dm" "deviceId (snd y) = did"
        by (auto simp: devices_obj_facts(2))
      then have "(fst y, snd y) \<in> set dm" by simp
      from grouped_entries[OF m this] y(2)
      have "\<exists>d\<in>set devices. userId d = uid \<and> deviceId d = did" by blast
      with devices_obj_facts(3)[OF k]
      show "json_get (JObj (devices_obj dm)) did = Some (JStr ''signed_curve25519'')
          \<and> (\<exists>d\<in>set devices. userId d = uid \<and> deviceId d = did)"
        by (simp add: otk)
    qed
    with user[OF m np] show "\<exists>devs. json_get ?otks uid = Some devs
              \<and> (\<forall>did\<in>set (json_keys devs).
                    json_get devs did = Some (JStr ''signed_curve25519'')
                  \<and> (\<exists>d\<in>set devices. userId d = uid \<and> deviceId d = did))"
      by blast
  qed
  have k: "json_keys (claim_payload ?dbu) = [''timeout'', ''one_time_keys'']"
    and t: "json_get (claim_payload ?dbu) ''timeout'' = Some (JNum 10000)"
    by (simp_all add: claim_payload_objs)
  have enc: "\<forall>all_devices without existing wi.
         findExistingSessions en all_devices = Inr (without, existing) \<longrightarrow>
         claim_requests (fst (encrypt en typ cont all_devices hsApi wi))
           = claim_requests wi
             @ (if without = [] then []
                else [ClaimKeys (claim_payload (devices_by_user without))])"
    using claim_requests_encrypt by blast
  from claimOneTimeKeys_trace k t g dk req only enc show ?thesis by blast
qed

theorem claim_request_shape_witness:
  "trace (fst (claimOneTimeKeys env0 hsApi0 [devN, devM] w0))
     = [ClaimKeys (JObj [(''timeout'', JNum 10000),
                         (''one_time_keys'',
                          JObj [(''@carol:hs'', JObj [(''DEVN'', JStr ''signed_curve25519''),
                                                     (''DEVM'', JStr ''signed_curve25519'')])])])]
   \<and> devN \<in> set [devN, devM]
   \<and> userId devN \<noteq> ''__proto__'' \<and> deviceId devN \<noteq> ''__proto__''
   \<and> json_get (JObj [(''@carol:hs'', JObj [(''DEVN'', JStr ''signed_curve25519''),
                                             (''DEVM'', JStr ''signed_curve25519'')])])
          (userId devN)
       = Some (JObj [(''DEVN'', JStr ''signed_curve25519''), (''DEVM'', JStr ''signed_curve25519'')])
   \<and> json_get (JObj [(''DEVN'', JStr ''signed_curve25519''), (''DEVM'', JStr ''signed_curve25519'')])
          (deviceId devN)
       = Some (JStr ''signed_curve25519'')
   \<and> findExistingSessions env0 [devN, devM, devA]
       = Inr ([devN, devM], [fromSessionId devA (Some ''s1'')])
   \<and> claim_requests (fst (encrypt env0 ''m.room.message'' (JStr ''hi'') [devN, devM, devA] hsApi0 w0))
       = [ClaimKeys (JObj [(''timeout'', JNum 10000),
                           (''one_time_keys'',
                            JObj [(''@carol:hs'', JObj [(''DEVN'', JStr ''signed_curve25519''),
                                                       (''DEVM'', JStr ''signed_curve25519'')])])])]"
proof -
  have p: "claim_payload (devices_by_user [devN, devM])
     = JObj [(''timeout'', JNum 10000),
             (''one_time_keys'',
              JObj [(''@carol:hs'', JObj [(''DEVN'', JStr ''signed_curve25519''),
                                         (''DEVM'', JStr ''signed_curve25519'')])])]"
    by (simp add: model_defs sample_defs)
  note th = claim_request_shape[of env0 hsApi0 "[devN, devM]" w0 "''m.room.message''" "JStr ''hi''"]
  from th
  have "trace (fst (claimOneTimeKeys env0 hsApi0 [devN, devM] w0))
     = trace w0 @ [ClaimKeys (claim_payload (devices_by_user [devN, devM]))]"
    by blast
  then have 1: "trace (fst (claimOneTimeKeys env0 hsApi0 [devN, devM] w0))
     = [ClaimKeys (JObj [(''timeout'', JNum 10000),
                         (''one_time_keys'',
                          JObj [(''@carol:hs'', JObj [(''DEVN'', JStr ''signed_curve25519''),
                                                     (''DEVM'', JStr ''signed_curve25519'')])])])]"
    unfolding p by (simp add: w0_def)
  have f: "findExistingSessions env0 [devN, devM, devA]
       = Inr ([devN, devM], [fromSessionId devA (Some ''s1'')])"
    by (simp add: model_defs sample_defs)
  from th f
  have "claim_requests (fst (encrypt env0 ''m.room.message'' (JStr ''hi'') [devN, devM, devA] hsApi0 w0))
       = claim_requests w0
         @ (if [devN, devM] = [] then []
            else [ClaimKeys (claim_payload (devices_by_user [devN, devM]))])"
    by blast
  then have 2: "claim_requests (fst (encrypt env0 ''m.room.message'' (JStr ''hi'') [devN, devM, devA] hsApi0 w0))
       = [ClaimKeys (JObj [(''timeout'', JNum 10000),
                           (''one_time_keys'',
                            JObj [(''@carol:hs'', JObj [(''DEVN'', JStr ''signed_curve25519''),
                                                       (''DEVM'', JStr ''signed_curve25519'')])])])]"
    unfolding p by (simp add: w0_def claim_requests_def)
  from 1 2 f show ?thesis by (simp add: devN_def)
qed

text \<open>
  C9 as stated names the timeout property \<open>timeout_ms\<close>: the payload has no such
  property, its properties are \<open>timeout\<close> and \<open>one_time_keys\<close>. And a device whose id
  is \<open>__proto__\<close> does not appear in the request: for the devices N and P of one user
  the request names device N only.
\<close>

theorem claim_request_timeout_counterexample:
  "json_get (claim_payload (devices_by_user [devN])) ''timeout_ms'' = None
   \<and> json_keys (claim_payload (devices_by_user [devN])) = [''timeout'', ''one_time_keys'']
   \<and> json_get (claim_payload (devices_by_user [devN])) ''timeout'' = Some (JNum 10000)
   \<and> claim_payload (devices_by_user [devN, devP])
       = JObj [(''timeout'', JNum 10000),
               (''one_time_keys'',
                JObj [(''@carol:hs'', JObj [(''DEVN'', JStr ''signed_curve25519'')])])]"
  by (simp add: model_defs sample_defs devP_def)

section \<open>Loading sessions\<close>

lemma count_list_zero: "x \<notin> set xs \<Longrightarrow> count_list xs x = 0"
  by (induction xs) auto

lemma count_Freed_map: "count_list (map Freed hs) (Freed h) = count_list hs h"
  by (induction hs) auto

lemma count_list_distinct: "distinct xs \<Longrightarrow> x \<in> set xs \<Longrightarrow> count_list xs x = 1"
  by (induction xs) (auto simp: count_list_zero)

lemma handles_of_nth:
  assumes "i < length ts"
  shows "handles_of ts = handles_of (take i ts)
           @ (case session (ts ! i) of None \<Rightarrow> [] | Some s \<Rightarrow> [handle s])
           @ handles_of (drop (Suc i) ts)"
proof -
  have "handles_of ts = handles_of (take i ts @ ts ! i # drop (Suc i) ts)"
    using id_take_nth_drop[OF assms] by simp
  then show ?thesis by (simp only: handles_of_simps)
qed

lemma handles_of_update:
  assumes "i < length ts"
  shows "handles_of (ts[i := t]) = handles_of (take i ts)
           @ (case session t of None \<Rightarrow> [] | Some s \<Rightarrow> [handle s])
           @ handles_of (drop (Suc i) ts)"
proof -
  have "handles_of (ts[i := t]) = handles_of (take i ts @ t # drop (Suc i) ts)"
    using upd_conv_take_nth_drop[OF assms] by simp
  then show ?thesis by (simp only: handles_of_simps)
qed

lemma settle_one_cases:
  assumes "settle_one en i ts failed w = (w1, ts1, thrown)"
  shows "(w1 = w \<and> ts1 = ts)
       \<or> (\<not> failed \<and> i < length ts \<and> w1 = snd (allocate w)
           \<and> (ts1 = ts
              \<or> (\<exists>sid. ts1 = ts[i := (ts ! i)\<lparr>session :=
                    Some \<lparr>handle = next_handle w, session_id = sid\<rparr>\<rparr>])))"
  using assms
  by (auto simp: settle_one_def Let_def allocate_def
      split: if_splits sum.splits option.splits)

lemma settle_one_caught:
  "settle_one en i ts True w = (w1, ts1, thrown) \<Longrightarrow> w1 = w \<and> ts1 = ts"
  by (drule settle_one_cases) simp

lemma settle_one_thrown:
  assumes "settle_one en i ts False w = (w1, ts1, thrown)"
  shows "thrown = (if i < length ts then load_error en (ts ! i) else None)"
  using assms
  by (auto simp: settle_one_def Let_def allocate_def load_error_def
      split: if_splits sum.splits option.splits)

lemma settle_one_reads:
  assumes "settle_one en i ts failed w = (w1, ts1, thrown)"
  shows "length ts1 = length ts" and "load_error en (ts1 ! j) = load_error en (ts ! j)"
proof -
  from settle_one_cases[OF assms] show "length ts1 = length ts" by auto
  from settle_one_cases[OF assms] show "load_error en (ts1 ! j) = load_error en (ts ! j)"
    by (cases "j = i") (auto simp: load_error_def)
qed

lemma settle_one_loading:
  assumes "settle_one en i ts failed w = (w1, ts1, thrown)" and "loading n ts w"
  shows "loading n ts1 w1" and "durable w1 = durable w"
proof -
  from settle_one_cases[OF assms(1)]
  consider (same) "w1 = w" "ts1 = ts"
    | (leak) "w1 = snd (allocate w)" "ts1 = ts"
    | (assigned) sid where "i < length ts" "w1 = snd (allocate w)"
        "ts1 = ts[i := (ts ! i)\<lparr>session := Some \<lparr>handle = next_handle w, session_id = sid\<rparr>\<rparr>]"
    by blast
  then have "loading n ts1 w1 \<and> durable w1 = durable w"
  proof cases
    case same with assms(2) show ?thesis by simp
  next
    case leak
    with assms(2) show ?thesis
      by (auto simp: loading_def allocate_def emit_def less_Suc_eq)
  next
    case assigned
    let ?A = "handles_of (take i ts)" and ?B = "handles_of (drop (Suc i) ts)"
    let ?X = "case session (ts ! i) of None \<Rightarrow> [] | Some s \<Rightarrow> [handle s]"
    have old: "handles_of ts = ?A @ ?X @ ?B" by (rule handles_of_nth[OF assigned(1)])
    have new: "handles_of ts1 = ?A @ [next_handle w] @ ?B"
      unfolding assigned(3) by (simp add: handles_of_update[OF assigned(1)])
    from assms(2) have d0: "distinct (handles_of ts)"
      and b0: "\<forall>h\<in>set (handles_of ts). n \<le> h \<and> h < next_handle w"
      and f: "\<forall>h. Freed h \<in> set (trace w) \<longrightarrow> h < n"
      and n: "n \<le> next_handle w"
      by (simp_all add: loading_def)
    have d: "distinct (?A @ ?X @ ?B)" using d0 by (simp only: old[symmetric])
    have b: "\<forall>h\<in>set (?A @ ?X @ ?B). n \<le> h \<and> h < next_handle w"
      using b0 by (simp only: old[symmetric])
    from b have bA: "\<forall>h\<in>set ?A. n \<le> h \<and> h < next_handle w"
      and bB: "\<forall>h\<in>set ?B. n \<le> h \<and> h < next_handle w" by auto
    from d have dAB: "distinct ?A" "distinct ?B" "set ?A \<inter> set ?B = {}" by auto
    have w1: "next_handle w1 = Suc (next_handle w)" "trace w1 = trace w @ [Allocated (next_handle w)]"
      "durable w1 = durable w"
      by (simp_all add: assigned(2) allocate_def emit_def)
    have "distinct (?A @ [next_handle w] @ ?B)" using dAB bA bB by auto
    moreover have "\<forall>h\<in>set (?A @ [next_handle w] @ ?B). n \<le> h \<and> h < next_handle w1"
      using bA bB n w1(1) by auto
    moreover have "\<forall>h. Freed h \<in> set (trace w1) \<longrightarrow> h < n" using f w1(2) by auto
    moreover have "n \<le> next_handle w1" using n w1(1) by simp
    ultimately show ?thesis by (simp only: loading_def new w1(3))
  qed
  then show "loading n ts1 w1" and "durable w1 = durable w" by simp_all
qed

lemma settle_loop_step:
  assumes "settle_one en i ts failed w = (w1, ts1, thrown)"
    and "rej1 = (if rej = None then thrown else rej)"
    and "pend1 = (if thrown \<noteq> None \<and> rej = None then Some (catch_delay en)
                  else map_option (\<lambda>k. k - 1) pend)"
  shows "settle_loop en (i # later) ts rej failed pend w
       = (if pend1 = Some 0
          then settle_loop en later ts1 rej1 True None (dispose_all ts1 w1)
          else settle_loop en later ts1 rej1 failed pend1 w1)"
  using assms by (simp add: Let_def)

lemma settle_loop_caught:
  "settle_loop en later ts (Some e) True None w = (w, ts, Some e)"
proof (induction later)
  case Nil show ?case by simp
next
  case (Cons i later)
  obtain w1 ts1 thrown where s: "settle_one en i ts True w = (w1, ts1, thrown)"
    using prod_cases3 by blast
  from settle_one_caught[OF s] settle_loop_step[OF s refl refl, where rej = "Some e" and pend = None and later = later] Cons
  show ?case by simp
qed

lemma settle_loop_keeps:
  "settle_loop en order ts (Some e) failed pending w = (w', ts', rej') \<Longrightarrow> rej' = Some e"
proof (induction order arbitrary: ts failed pending w)
  case Nil then show ?case by (simp split: option.splits)
next
  case (Cons i order)
  obtain w1 ts1 thrown where s: "settle_one en i ts failed w = (w1, ts1, thrown)"
    using prod_cases3 by blast
  define pend1 where "pend1 = (if thrown \<noteq> None \<and> Some e = None then Some (catch_delay en)
                                else map_option (\<lambda>k. k - 1) pending)"
  have r: "Some e = (if Some e = None then thrown else Some e)" by simp
  note step = settle_loop_step[OF s r pend1_def, where later = order]
  show ?case
  proof (cases "pend1 = Some 0")
    case True
    with Cons.prems step
    have "settle_loop en order ts1 (Some e) True None (dispose_all ts1 w1) = (w', ts', rej')"
      by simp
    then show ?thesis by (rule Cons.IH)
  next
    case False
    with Cons.prems step
    have "settle_loop en order ts1 (Some e) failed pend1 w1 = (w', ts', rej')"
      by simp
    then show ?thesis by (rule Cons.IH)
  qed
qed

lemma disposed_once:
  assumes "loading n ts w" and "h \<in> set (handles_of ts)"
  shows "count_list (trace (dispose_all ts w)) (Freed h) = 1" and "n \<le> h"
proof -
  from assms show n: "n \<le> h" by (simp add: loading_def)
  with assms(1) have "Freed h \<notin> set (trace w)" by (auto simp: loading_def)
  then have a: "count_list (trace w) (Freed h) = 0" by (rule count_list_zero)
  from assms have b: "count_list (handles_of ts) h = 1"
    by (simp add: loading_def count_list_distinct)
  show "count_list (trace (dispose_all ts w)) (Freed h) = 1"
    by (simp add: dispose_all_world a b count_Freed_map)
qed

lemma settle_loop_released:
  assumes "settle_loop en order ts rej False pend w = (w', ts', rej')"
    and "loading n ts w" and "(rej = None) = (pend = None)"
  shows "durable w' = durable w
       \<and> (rej' \<noteq> None \<longrightarrow>
            (\<forall>h\<in>set (handles_of ts'). count_list (trace w') (Freed h) = 1 \<and> n \<le> h)
          \<and> (\<forall>later. settle_loop en later ts' rej' True None w' = (w', ts', rej')))"
  using assms
proof (induction order arbitrary: ts rej pend w)
  case Nil
  show ?case
  proof (cases pend)
    case None
    with Nil.prems show ?thesis by simp
  next
    case (Some k)
    with Nil.prems obtain e where e: "rej = Some e" by auto
    from Nil.prems(1) Some have r: "w' = dispose_all ts w" "ts' = ts" "rej' = rej" by auto
    show ?thesis
      using disposed_once[OF Nil.prems(2)]
      by (simp add: r e settle_loop_caught dispose_all_world)
  qed
next
  case (Cons i order)
  obtain w1 ts1 thrown where s: "settle_one en i ts False w = (w1, ts1, thrown)"
    using prod_cases3 by blast
  note l1 = settle_one_loading[OF s Cons.prems(2)]
  define rej1 where "rej1 = (if rej = None then thrown else rej)"
  define pend1 where "pend1 = (if thrown \<noteq> None \<and> rej = None then Some (catch_delay en)
                                else map_option (\<lambda>k. k - 1) pend)"
  have inv: "(rej1 = None) = (pend1 = None)"
    using Cons.prems(3) by (auto simp: rej1_def pend1_def)
  show ?case
  proof (cases "pend1 = Some 0")
    case True
    with inv obtain e where e: "rej1 = Some e" by auto
    from Cons.prems(1) True
    have "settle_loop en order ts1 rej1 True None (dispose_all ts1 w1) = (w', ts', rej')"
      unfolding settle_loop_step[OF s rej1_def pend1_def] by simp
    then have r: "w' = dispose_all ts1 w1" "ts' = ts1" "rej' = rej1"
      by (auto simp: e settle_loop_caught)
    show ?thesis
      using disposed_once[OF l1(1)] l1(2)
      by (simp add: r e settle_loop_caught dispose_all_world)
  next
    case False
    with Cons.prems(1)
    have "settle_loop en order ts1 rej1 False pend1 w1 = (w', ts', rej')"
      unfolding settle_loop_step[OF s rej1_def pend1_def] by simp
    from Cons.IH[OF this l1(1) inv] l1(2) show ?thesis by simp
  qed
qed

lemma settle_loop_rejects:
  assumes "settle_loop en order ts rej failed pend w = (w', ts', rej')"
    and "i \<in> set order" and "i < length ts" and "load_error en (ts ! i) \<noteq> None"
    and "failed \<longrightarrow> rej \<noteq> None" and "pend \<noteq> None \<longrightarrow> rej \<noteq> None"
  shows "rej' \<noteq> None"
  using assms
proof (induction order arbitrary: ts rej failed pend w)
  case Nil then show ?case by simp
next
  case (Cons j order)
  obtain w1 ts1 thrown where s: "settle_one en j ts failed w = (w1, ts1, thrown)"
    using prod_cases3 by blast
  define rej1 where "rej1 = (if rej = None then thrown else rej)"
  define pend1 where "pend1 = (if thrown \<noteq> None \<and> rej = None then Some (catch_delay en)
                                else map_option (\<lambda>k. k - 1) pend)"
  from Cons.prems(1)
  have step: "(if pend1 = Some 0
               then settle_loop en order ts1 rej1 True None (dispose_all ts1 w1)
               else settle_loop en order ts1 rej1 failed pend1 w1) = (w', ts', rej')"
    by (simp only: settle_loop_step[OF s rej1_def pend1_def])
  show ?case
  proof (cases rej1)
    case (Some e)
    from step have "rej' = Some e"
      by (auto simp: Some dest: settle_loop_keeps split: if_splits)
    then show ?thesis by simp
  next
    case None
    then have rn: "rej = None" "thrown = None" by (auto simp: rej1_def split: if_splits)
    with Cons.prems(5,6) have nf: "\<not> failed" "pend = None" by auto
    then have p1: "pend1 = None" by (simp add: pend1_def rn)
    from s nf have "thrown = (if j < length ts then load_error en (ts ! j) else None)"
      by (simp add: settle_one_thrown)
    with rn Cons.prems(3,4) have "j \<noteq> i" by auto
    with Cons.prems(2) have i: "i \<in> set order" by simp
    from step p1 have l: "settle_loop en order ts1 rej1 failed pend1 w1 = (w', ts', rej')"
      by simp
    from settle_one_reads[OF s] Cons.prems(3,4)
    have a: "i < length ts1" "load_error en (ts1 ! i) \<noteq> None" by simp_all
    show ?thesis
      by (rule Cons.IH[OF l i a]) (simp_all add: nf p1)
  qed
qed

lemma settle_loop_error_from:
  assumes "settle_loop en order ts None False None w = (w', ts', Some err)"
  shows "\<exists>j<length ts. load_error en (ts ! j) = Some err"
  using assms
proof (induction order arbitrary: ts w)
  case Nil then show ?case by simp
next
  case (Cons j order)
  obtain w1 ts1 thrown where s: "settle_one en j ts False w = (w1, ts1, thrown)"
    using prod_cases3 by blast
  note t = settle_one_thrown[OF s]
  show ?case
  proof (cases thrown)
    case None
    with Cons.prems settle_loop_step[OF s refl refl, where rej = None and pend = None and later = order]
    have "settle_loop en order ts1 None False None w1 = (w', ts', Some err)" by simp
    from Cons.IH[OF this] settle_one_reads[OF s] show ?thesis by simp
  next
    case (Some e)
    with Cons.prems settle_loop_step[OF s refl refl, where rej = None and pend = None and later = order]
    have "(if catch_delay en = 0
           then settle_loop en order ts1 (Some e) True None (dispose_all ts1 w1)
           else settle_loop en order ts1 (Some e) False (Some (catch_delay en)) w1)
          = (w', ts', Some err)" by simp
    then have "Some err = Some e" by (auto dest: settle_loop_keeps split: if_splits)
    with t Some show ?thesis by (auto split: if_splits)
  qed
qed

lemma settle_order_covers: "i < n \<Longrightarrow> i \<in> set (settle_order n order)"
  by (auto simp: settle_order_def)

lemma existing_sessions_none:
  assumes "findExistingSessions en devices = Inr (without, existing)"
  shows "\<forall>t\<in>set existing. session t = None"
  using findExistingSessions_result(2)[OF assms]
  by (auto simp: List.map_filter_def existing_target_def fromSessionId_def
      split: if_splits option.splits)

lemma create_loop_bounds:
  assumes "create_loop en ts done w = (w', ts', r)"
    and "\<forall>t\<in>set ts. session t = None"
    and "\<forall>h\<in>set (handles_of done). h < next_handle w"
  shows "(\<forall>h\<in>set (handles_of ts'). h < next_handle w')
       \<and> next_handle w \<le> next_handle w'
       \<and> (\<forall>h. (Freed h \<in> set (trace w')) = (Freed h \<in> set (trace w)))"
  using assms
proof (induction ts arbitrary: "done" w)
  case Nil then show ?case by simp
next
  case (Cons t ts)
  show ?case
  proof (cases "createOutboundOlmSession en (curve25519Key (device t)) (oneTimeKey t)")
    case (Inl e)
    with Cons.prems show ?thesis by (auto simp: handles_of_none)
  next
    case (Inr sid)
    let ?h = "next_handle w"
    let ?w1 = "emit (Allocated ?h) (w\<lparr>next_handle := Suc ?h\<rparr>)"
    let ?t' = "t\<lparr>session := Some \<lparr>handle = ?h, session_id = sid\<rparr>\<rparr>"
    from Cons.prems(1) Inr have l: "create_loop en ts (done @ [?t']) ?w1 = (w', ts', r)"
      by (simp add: allocate_def)
    have b: "\<forall>h\<in>set (handles_of (done @ [?t'])). h < next_handle ?w1"
      using Cons.prems(3) by (auto simp: emit_def less_Suc_eq)
    from Cons.prems(2) have n: "\<forall>t\<in>set ts. session t = None" by simp
    from Cons.IH[OF l n b] show ?thesis by (auto simp: emit_def)
  qed
qed

lemma claimed_sessions_none:
  assumes "claimOneTimeKeys en hsApi devices w = (w1, Inr claimed)"
  shows "\<forall>t\<in>set claimed. session t = None"
proof
  fix t assume t: "t \<in> set claimed"
  from claimOneTimeKeys_Inr[OF assms] obtain m where
    "verifyAndCreateOTKTargets en (Some m) (devices_by_user devices) = Inr claimed" by blast
  from verify_targets[OF this t] show "session t = None" by (auto simp: fromOTK_def)
qed

lemma createNewSessions_tidy:
  assumes "tidy w" "createNewSessions en devs hsApi timestamp w = (w1, Inr newTargets)"
  shows "tidy w1 \<and> (\<forall>h\<in>set (handles_of newTargets). h < next_handle w1)"
proof -
  from assms(2) obtain wc claimed where
    c: "claimOneTimeKeys en hsApi devs w = (wc, Inr claimed)"
    by (auto simp: createNewSessions_def split: prod.splits sum.splits)
  from claimOneTimeKeys_world[of en hsApi devs w] c
  have wc: "wc = emit (ClaimKeys (claim_payload (devices_by_user devs))) w" by simp
  obtain w2 ts' r where l: "create_loop en claimed [] wc = (w2, ts', r)"
    using prod_cases3 by blast
  from create_loop_bounds[OF l claimed_sessions_none[OF c]]
  have b: "\<forall>h\<in>set (handles_of ts'). h < next_handle w2" "next_handle wc \<le> next_handle w2"
    "\<forall>h. (Freed h \<in> set (trace w2)) = (Freed h \<in> set (trace wc))" by simp_all
  have t2: "tidy w2" using assms(1) b(2,3) by (auto simp: tidy_def wc emit_def)
  show ?thesis
  proof (cases r)
    case None
    with assms(2) c l have e: "w1 = fst (storeSessions en ts' timestamp w2)" "newTargets = ts'"
      by (auto simp: createNewSessions_def)
    with t2 b(1) show ?thesis by (simp add: tidy_def storeSessions_world)
  next
    case (Some err)
    with assms(2) c l have e: "w1 = dispose_all ts' w2" "newTargets = ts'"
      by (auto simp: createNewSessions_def)
    with t2 b(1) show ?thesis by (auto simp: tidy_def dispose_all_world)
  qed
qed

text \<open>
  C4, as amended. Let the lookup phase give the targets \<open>existing\<close> and the creation
  phase end in the world \<open>w1\<close> with the new targets, and let the read or the unpickle of
  one existing target throw. Then, in whatever order the reads settle and however many
  of them settle before the \<open>catch\<close> runs, the load phase rejects with the error of one
  of its targets and \<open>encrypt\<close> raises that error; every session that a target of the
  batch holds at the end has been released by the time \<open>encrypt\<close> returns (the trace
  holds one \<open>Freed\<close> event for it); a read that settles after the \<open>catch\<close> assigns
  nothing, it changes neither the targets nor the world; and
  the store is as the creation phase left it: no record is written for a target of the
  load batch, and the records written eagerly for new sessions stay.
\<close>

theorem load_failure_releases_and_raises:
  assumes "tidy w"
    and "findExistingSessions en devices = Inr (devicesWithoutSession, existing)"
    and "(if devicesWithoutSession \<noteq> []
          then createNewSessions en devicesWithoutSession hsApi (now en) w
          else (w, Inr [])) = (w1, Inr newTargets)"
    and "i < length existing"
    and "load_error en (existing ! i) \<noteq> None"
  shows "\<exists>w2 loaded err.
           settle_loop en (settle_order (length existing) (load_order en (length existing)))
             existing None False None w1 = (w2, loaded, Some err)
         \<and> (\<exists>j<length existing. load_error en (existing ! j) = Some err)
         \<and> encrypt en mtype cont devices hsApi w = (dispose_all newTargets w2, Inl err)
         \<and> (\<forall>h\<in>set (handles_of loaded).
                count_list (trace (dispose_all newTargets w2)) (Freed h) = 1)
         \<and> (\<forall>later. settle_loop en later loaded (Some err) True None w2
                = (w2, loaded, Some err))
         \<and> durable (dispose_all newTargets w2) = durable w1"
proof -
  let ?order = "settle_order (length existing) (load_order en (length existing))"
  have "\<forall>t\<in>set existing. session t = None"
    by (rule existing_sessions_none[OF assms(2)])
  then have none: "handles_of existing = []" by (rule handles_of_none)
  have t1: "tidy w1 \<and> (\<forall>h\<in>set (handles_of newTargets). h < next_handle w1)"
  proof (cases "devicesWithoutSession \<noteq> []")
    case True
    with assms(3) have "createNewSessions en devicesWithoutSession hsApi (now en) w
        = (w1, Inr newTargets)" by simp
    from createNewSessions_tidy[OF assms(1) this] show ?thesis .
  next
    case False
    with assms(1,3) show ?thesis by auto
  qed
  then have ld: "loading (next_handle w1) existing w1"
    by (simp add: loading_def none tidy_def)
  obtain w2 loaded rej where sl: "settle_loop en ?order existing None False None w1
      = (w2, loaded, rej)"
    using prod_cases3 by blast
  have "rej \<noteq> None"
    by (rule settle_loop_rejects[OF sl settle_order_covers[OF assms(4)] assms(4,5)]) simp_all
  then obtain err where err: "rej = Some err" by auto
  note sl' = sl[unfolded err]
  have src: "\<exists>j<length existing. load_error en (existing ! j) = Some err"
    by (rule settle_loop_error_from[OF sl'])
  from settle_loop_released[OF sl' ld]
  have d2: "durable w2 = durable w1"
    and c2: "\<forall>h\<in>set (handles_of loaded).
               count_list (trace w2) (Freed h) = 1 \<and> next_handle w1 \<le> h"
    and after: "\<forall>later. settle_loop en later loaded (Some err) True None w2
                  = (w2, loaded, Some err)"
    by simp_all
  have ls: "loadSessions en existing w1 = (w2, Inl err)"
    using sl' by (simp add: loadSessions_def)
  have e: "encrypt en mtype cont devices hsApi w = (dispose_all newTargets w2, Inl err)"
    using assms(2,3) ls by (simp add: encrypt_def Let_def)
  have c: "\<forall>h\<in>set (handles_of loaded).
             count_list (trace (dispose_all newTargets w2)) (Freed h) = 1"
  proof
    fix h assume h: "h \<in> set (handles_of loaded)"
    with c2 have a: "count_list (trace w2) (Freed h) = 1" and n: "next_handle w1 \<le> h"
      by simp_all
    from n t1 have "h \<notin> set (handles_of newTargets)" by auto
    then have b: "count_list (handles_of newTargets) h = 0" by (rule count_list_zero)
    show "count_list (trace (dispose_all newTargets w2)) (Freed h) = 1"
      by (simp add: dispose_all_world a b count_Freed_map)
  qed
  have d: "durable (dispose_all newTargets w2) = durable w1"
    by (simp add: dispose_all_world d2)
  from sl' src e c after d show ?thesis by blast
qed

theorem load_failure_releases_and_raises_witness:
  "tidy w0
   \<and> findExistingSessions env_same_tick [devN, devA, devB]
       = Inr ([devN], [fromSessionId devA (Some ''s1''), fromSessionId devB (Some ''s1'')])
   \<and> load_error env_same_tick (fromSessionId devA (Some ''s1'')) \<noteq> None
   \<and> snd (encrypt env_same_tick ''m.room.message'' (JStr ''hi'') [devN, devA, devB] hsApi0 w0)
       = Inl (StorageError ''read'')
   \<and> count_list
       (trace (fst (encrypt env_same_tick ''m.room.message'' (JStr ''hi'') [devN, devA, devB]
                      hsApi0 w0)))
       (Freed 1) = 1"
proof -
  let ?tA = "fromSessionId devA (Some ''s1'')"
  let ?tB = "fromSessionId devB (Some ''s1'')"
  let ?w1 = "\<lparr>next_handle = 1,
         trace = [ClaimKeys (claim_payload (devices_by_user [devN])), Allocated 0, TxnComplete],
         durable = [((''curveN'', ''new for curveN''),
                     \<lparr>se_session = ''pickled'', se_sessionId = ''new for curveN'',
                      se_senderKey = ''curveN'', se_lastUsed = 1000\<rparr>)]\<rparr>"
  let ?w2 = "\<lparr>next_handle = 2,
         trace = [ClaimKeys (claim_payload (devices_by_user [devN])), Allocated 0, TxnComplete,
                  Allocated 1, Freed 1],
         durable = [((''curveN'', ''new for curveN''),
                     \<lparr>se_session = ''pickled'', se_sessionId = ''new for curveN'',
                      se_senderKey = ''curveN'', se_lastUsed = 1000\<rparr>)]\<rparr>"
  let ?loaded = "[?tA, ?tB\<lparr>session := Some \<lparr>handle = 1, session_id = ''s1''\<rparr>\<rparr>]"
  let ?enc = "encrypt env_same_tick ''m.room.message'' (JStr ''hi'') [devN, devA, devB] hsApi0 w0"
  have h1: "tidy w0" by (simp add: tidy_def w0_def)
  have h2: "findExistingSessions env_same_tick [devN, devA, devB] = Inr ([devN], [?tA, ?tB])"
    by (simp add: model_defs sample_defs env_read_fails_def env_same_tick_def)
  have h3: "(if [devN] \<noteq> []
          then createNewSessions env_same_tick [devN] hsApi0 (now env_same_tick) w0
          else (w0, Inr [])) = (?w1, Inr [targetN])"
    by (simp add: model_defs sample_defs env_read_fails_def env_same_tick_def targetN_def)
  have h4: "0 < length [?tA, ?tB]" by simp
  have h5': "load_error env_same_tick ?tA \<noteq> None"
    by (simp add: load_error_def fromSessionId_def sample_defs env_read_fails_def
        env_same_tick_def)
  then have h5: "load_error env_same_tick ([?tA, ?tB] ! 0) \<noteq> None" by simp
  have ev: "settle_loop env_same_tick
              (settle_order (length [?tA, ?tB]) (load_order env_same_tick (length [?tA, ?tB])))
              [?tA, ?tB] None False None ?w1 = (?w2, ?loaded, Some (StorageError ''read''))"
    by (simp add: model_defs sample_defs env_read_fails_def env_same_tick_def)
  from load_failure_releases_and_raises[OF h1 h2 h3 h4 h5,
      where mtype = "''m.room.message''" and cont = "JStr ''hi''"]
  obtain w2 loaded err where
    a: "settle_loop env_same_tick
          (settle_order (length [?tA, ?tB]) (load_order env_same_tick (length [?tA, ?tB])))
          [?tA, ?tB] None False None ?w1 = (w2, loaded, Some err)"
    and e: "?enc = (dispose_all [targetN] w2, Inl err)"
    and c: "\<forall>h\<in>set (handles_of loaded).
              count_list (trace (dispose_all [targetN] w2)) (Freed h) = 1"
    by blast
  from a ev have eq: "loaded = ?loaded" "err = StorageError ''read''" by simp_all
  have "1 \<in> set (handles_of ?loaded)" by (simp add: fromSessionId_def)
  with c eq have "count_list (trace (dispose_all [targetN] w2)) (Freed 1) = 1" by blast
  with e eq have "snd ?enc = Inl (StorageError ''read'')"
    "count_list (trace (fst ?enc)) (Freed 1) = 1" by simp_all
  with h1 h2 h5' show ?thesis by blast
qed

text \<open>
  C4 as stated fails in two ways. When the call also creates a session, device N gets a
  new session whose record is written and committed by the eager persistence, and then
  the load for device A throws: the call raises, and the record of N is in the store.
  And when the read for device B settles before the \<open>catch\<close> has run, the callback of B
  finds \<open>failed\<close> still false: A's read has thrown, with no session assigned to any
  target, and at the end B holds a session, allocated after that and freed by the
  \<open>catch\<close>.
\<close>

theorem load_failure_counterexample:
  "encrypt env_read_fails ''m.room.message'' (JStr ''hi'') [devN, devA] hsApi0 w0
     = (\<lparr>next_handle = 1,
         trace = [ClaimKeys (claim_payload (devices_by_user [devN])),
                  Allocated 0, TxnComplete, Freed 0],
         durable = [((''curveN'', ''new for curveN''),
                     \<lparr>se_session = ''pickled'', se_sessionId = ''new for curveN'',
                      se_senderKey = ''curveN'', se_lastUsed = 1000\<rparr>)]\<rparr>,
        Inl (StorageError ''read''))
   \<and> durable w0 = []
   \<and> settle_one env_same_tick 0
        [fromSessionId devA (Some ''s1''), fromSessionId devB (Some ''s1'')] False w0
     = (w0, [fromSessionId devA (Some ''s1''), fromSessionId devB (Some ''s1'')],
        Some (StorageError ''read''))
   \<and> settle_loop env_same_tick (settle_order 2 (load_order env_same_tick 2))
        [fromSessionId devA (Some ''s1''), fromSessionId devB (Some ''s1'')] None False None w0
     = (\<lparr>next_handle = 1, trace = [Allocated 0, Freed 0], durable = []\<rparr>,
        [fromSessionId devA (Some ''s1''),
         (fromSessionId devB (Some ''s1''))\<lparr>session := Some \<lparr>handle = 0, session_id = ''s1''\<rparr>\<rparr>],
        Some (StorageError ''read''))"
  by (simp add: model_defs sample_defs env_read_fails_def env_same_tick_def numeral_2_eq_2)

end
